theory Spec2Isabelle
  imports Main "HOL-Library.Word"
begin

unbundle bit_operations_syntax

section \<open>JavaScript values\<close>

text \<open>
  The hook and the lazy wrapper handle values of type \<^verbatim>\<open>any\<close>: they test them for
  truthiness and read the properties \<^verbatim>\<open>then\<close> and \<^verbatim>\<open>default\<close>.  Numbers are the
  integers; functions are opaque references without properties of their own; a
  promise-like object (an object whose \<^verbatim>\<open>then\<close> method registers reactions) is a
  reference into the promise store.
\<close>

type_synonym pref = nat
type_synonym cref = nat

datatype jsval =
    JUndefined
  | JNull
  | JBool bool
  | JNum int
  | JStr string
  | JFun nat
  | JNative string
  | JObj "(string \<times> jsval) list"
  | JPromise pref

fun truthy :: "jsval \<Rightarrow> bool" where
  "truthy JUndefined = False"
| "truthy JNull = False"
| "truthy (JBool b) = b"
| "truthy (JNum n) = (n \<noteq> 0)"
| "truthy (JStr s) = (s \<noteq> [])"
| "truthy (JFun f) = True"
| "truthy (JNative n) = True"
| "truthy (JObj fs) = True"
| "truthy (JPromise p) = True"

text \<open>\<^verbatim>\<open>x == null\<close>: true of \<^verbatim>\<open>null\<close> and \<^verbatim>\<open>undefined\<close> only.\<close>

fun nullish :: "jsval \<Rightarrow> bool" where
  "nullish JUndefined = True"
| "nullish JNull = True"
| "nullish _ = False"

text \<open>Property read \<^verbatim>\<open>v.k\<close> on a value that is not \<^verbatim>\<open>null\<close> or \<^verbatim>\<open>undefined\<close>
  (the source guards every read with a truthiness test of the receiver).\<close>

fun get :: "jsval \<Rightarrow> string \<Rightarrow> jsval" where
  "get (JObj fs) k = (case map_of fs k of Some v \<Rightarrow> v | None \<Rightarrow> JUndefined)"
| "get (JPromise p) k = (if k = ''then'' then JNative ''then'' else JUndefined)"
| "get v k = JUndefined"

section \<open>Promises\<close>

text \<open>
  A promise is pending or settled; \<^verbatim>\<open>p.then(f, g)\<close> records a reaction on a pending
  promise and queues a job on a settled one; settling a pending promise queues one job
  for each of its reactions, in the order of registration.  Jobs run later, one at a
  time, from the front of the queue.  A reaction whose result promise the caller drops
  has no derived promise.
\<close>

datatype outcome = Fulfill jsval | Reject jsval

datatype pstate = Pending | Settled outcome

record 'cb reaction =
  onFulfilled :: "'cb option"
  onRejected :: "'cb option"
  derived :: "pref option"

record 'cb pstore =
  pstate :: "pref \<Rightarrow> pstate"
  reactions :: "pref \<Rightarrow> 'cb reaction list"
  jobs :: "('cb reaction \<times> outcome) list"
  fresh :: pref

definition new_promise :: "'cb pstore \<Rightarrow> pref \<times> 'cb pstore" where
  "new_promise st =
     (fresh st,
      st\<lparr>pstate := (pstate st)(fresh st := Pending),
         reactions := (reactions st)(fresh st := []),
         fresh := Suc (fresh st)\<rparr>)"

definition promise_then ::
  "pref \<Rightarrow> 'cb option \<Rightarrow> 'cb option \<Rightarrow> pref option \<Rightarrow> 'cb pstore \<Rightarrow> 'cb pstore" where
  "promise_then p f g d st =
     (let r = \<lparr>onFulfilled = f, onRejected = g, derived = d\<rparr>
      in case pstate st p of
           Pending \<Rightarrow> st\<lparr>reactions := (reactions st)(p := reactions st p @ [r])\<rparr>
         | Settled out \<Rightarrow> st\<lparr>jobs := jobs st @ [(r, out)]\<rparr>)"

definition settle :: "pref \<Rightarrow> outcome \<Rightarrow> 'cb pstore \<Rightarrow> 'cb pstore" where
  "settle p out st =
     (case pstate st p of
        Pending \<Rightarrow>
          st\<lparr>pstate := (pstate st)(p := Settled out),
             jobs := jobs st @ map (\<lambda>r. (r, out)) (reactions st p),
             reactions := (reactions st)(p := [])\<rparr>
      | Settled old \<Rightarrow> st)"

section \<open>Tree nodes of the host\<close>

text \<open>
  The fields of \<^verbatim>\<open>InternalVNode\<close> that the source reads: \<^verbatim>\<open>__\<close> (parent), \<^verbatim>\<open>__c\<close>
  (component), \<^verbatim>\<open>__e\<close> (dom), \<^verbatim>\<open>__k\<close> (children), \<^verbatim>\<open>__u\<close> (flags) and \<^verbatim>\<open>__h\<close>
  (hydrating).  An absent field is \<open>None\<close>.  A component instance either is a Suspense
  instance, which has the method \<^verbatim>\<open>__c\<close>, or is another component, which has none.
  The parent chain is owned by the host and is a finite chain.
\<close>

datatype compref = SuspenseInstance cref | OtherComponent nat

datatype vnode =
  VNode (v_parent: "vnode option") (v_component: "compref option")
        (v_dom: "nat option") (v_children: "nat option")
        (v_flags: "int option") (v_hydrating: "bool option")

definition MODE_HYDRATE :: "32 word" where
  "MODE_HYDRATE = push_bit 5 1"

text \<open>\<^verbatim>\<open>!!(vnode.__u && (vnode.__u & MODE_HYDRATE)) || !!vnode.__h\<close>; the operator
  \<^verbatim>\<open>&\<close> works on the 32-bit value of its operands.\<close>

definition isHydrating :: "vnode \<Rightarrow> bool" where
  "isHydrating suspendingVNode =
     ((case v_flags suspendingVNode of
         None \<Rightarrow> False
       | Some u \<Rightarrow> u \<noteq> 0 \<and> (word_of_int u AND MODE_HYDRATE) \<noteq> 0)
      \<or> (case v_hydrating suspendingVNode of None \<Rightarrow> False | Some h \<Rightarrow> h))"

section \<open>The Suspense component\<close>

datatype element = Element jsval jsval "jsval list"

definition Fragment :: jsval where
  "Fragment = JNative ''Fragment''"

text \<open>\<^verbatim>\<open>createElement(type, props, ...children)\<close> of the host, as the record of its
  arguments.\<close>

definition createElement :: "jsval \<Rightarrow> jsval \<Rightarrow> jsval list \<Rightarrow> element" where
  "createElement type config kids = Element type config kids"

record suspense_props =
  fallback :: jsval
  children :: jsval

text \<open>
  A Suspense instance: its props, \<^verbatim>\<open>this.state.suspended\<close>, \<^verbatim>\<open>this._pendingCount\<close>,
  and the requests \<^verbatim>\<open>this.setState({suspended: b})\<close> made so far, oldest first; the
  host schedules a re-render of the boundary for each request.  The field \<open>suspended\<close>
  is the state as of the latest request, which is what the next render reads.  The
  counter only takes integer values.
\<close>

record suspense =
  props :: suspense_props
  suspended :: bool
  pendingCount :: int
  setStateCalls :: "bool list"

definition Suspense_constructor :: "suspense_props \<Rightarrow> suspense" where
  "Suspense_constructor ps =
     \<lparr>props = ps, suspended = False, pendingCount = 0, setStateCalls = []\<rparr>"

definition render :: "suspense \<Rightarrow> element option" where
  "render this =
     (if suspended this
      then (if \<not> nullish (fallback (props this))
            then Some (createElement Fragment JNull [fallback (props this)])
            else None)
      else Some (createElement Fragment JNull [children (props this)]))"

text \<open>The closure \<^verbatim>\<open>onResolved\<close> made by the \<open>k\<close>-th call of \<^verbatim>\<open>__c\<close>, on the
  boundary \<open>c\<close>.\<close>

datatype callback = OnResolved cref nat

text \<open>
  The boundaries, the variable \<^verbatim>\<open>resolved\<close> of every closure made so far, the promise
  store, and the hook that was installed before this one (\<^verbatim>\<open>oldCatchError\<close>): whether
  there is one, and the calls made to it.
\<close>

record world =
  boundary :: "cref \<Rightarrow> suspense"
  resolved :: "nat \<Rightarrow> bool"
  nextClosure :: nat
  store :: "callback pstore"
  oldCatchError :: bool
  forwarded :: "(jsval \<times> vnode \<times> vnode \<times> jsval) list"

definition upd_boundary :: "cref \<Rightarrow> (suspense \<Rightarrow> suspense) \<Rightarrow> world \<Rightarrow> world" where
  "upd_boundary c f w = w\<lparr>boundary := (boundary w)(c := f (boundary w c))\<rparr>"

definition setState :: "cref \<Rightarrow> bool \<Rightarrow> world \<Rightarrow> world" where
  "setState c b w =
     upd_boundary c (\<lambda>s. s\<lparr>suspended := b, setStateCalls := setStateCalls s @ [b]\<rparr>) w"

definition onResolved :: "cref \<Rightarrow> nat \<Rightarrow> world \<Rightarrow> world" where
  "onResolved c k w =
     (if resolved w k then w
      else
        let w1 = w\<lparr>resolved := (resolved w)(k := True)\<rparr>;
            w2 = upd_boundary c (\<lambda>s. s\<lparr>pendingCount := pendingCount s - 1\<rparr>) w1
        in if pendingCount (boundary w2 c) \<le> 0
           then setState c False (upd_boundary c (\<lambda>s. s\<lparr>pendingCount := 0\<rparr>) w2)
           else w2)"

definition childDidSuspend :: "cref \<Rightarrow> pref \<Rightarrow> vnode \<Rightarrow> world \<Rightarrow> world" where
  "childDidSuspend c promise suspendingVNode w =
     (let k = nextClosure w;
          w1 = w\<lparr>resolved := (resolved w)(k := False), nextClosure := Suc k\<rparr>;
          w2 = upd_boundary c (\<lambda>s. s\<lparr>pendingCount := pendingCount s + 1\<rparr>) w1;
          w3 = (if \<not> isHydrating suspendingVNode then setState c True w2 else w2)
      in w3\<lparr>store :=
              promise_then promise (Some (OnResolved c k)) (Some (OnResolved c k)) None
                (store w3)\<rparr>)"

text \<open>Running one job of the queue: the handler that matches the outcome is called.\<close>

definition run_reaction :: "callback reaction \<Rightarrow> outcome \<Rightarrow> world \<Rightarrow> world" where
  "run_reaction r out w =
     (case (case out of Fulfill v \<Rightarrow> onFulfilled r | Reject e \<Rightarrow> onRejected r) of
        None \<Rightarrow> w
      | Some (OnResolved c k) \<Rightarrow> onResolved c k w)"

fun run_jobs :: "nat \<Rightarrow> world \<Rightarrow> world" where
  "run_jobs 0 w = w"
| "run_jobs (Suc n) w =
     (case jobs (store w) of
        [] \<Rightarrow> w
      | (r, out) # js \<Rightarrow> run_jobs n (run_reaction r out (w\<lparr>store := (store w)\<lparr>jobs := js\<rparr>\<rparr>)))"

text \<open>A signal settles: its reactions are queued, and the queue is run until it is
  empty (no callback of this component queues a job).\<close>

definition settle_signal :: "pref \<Rightarrow> outcome \<Rightarrow> world \<Rightarrow> world" where
  "settle_signal p out w =
     (let w1 = w\<lparr>store := settle p out (store w)\<rparr>
      in run_jobs (length (jobs (store w1))) w1)"

subsection \<open>The interception hook\<close>



text \<open>
  The statements of \<^verbatim>\<open>__c\<close> before \<^verbatim>\<open>promise.then(onResolved, onResolved)\<close>: the
  closure is made, the counter is incremented and, unless the node is hydrating,
  \<open>suspended\<close> is set.
\<close>

definition count_suspension :: "cref \<Rightarrow> vnode \<Rightarrow> world \<Rightarrow> world" where
  "count_suspension c suspendingVNode w =
     (let k = nextClosure w;
          w1 = w\<lparr>resolved := (resolved w)(k := False), nextClosure := Suc k\<rparr>;
          w2 = upd_boundary c (\<lambda>s. s\<lparr>pendingCount := pendingCount s + 1\<rparr>) w1
      in if \<not> isHydrating suspendingVNode then setState c True w2 else w2)"







text \<open>\<^verbatim>\<open>if (newVNode.__e == null) { newVNode.__e = oldVNode.__e; newVNode.__k = oldVNode.__k; }\<close>\<close>

definition preserve_dom :: "vnode \<Rightarrow> vnode \<Rightarrow> vnode" where
  "preserve_dom newVNode oldVNode =
     (if v_dom newVNode = None
      then VNode (v_parent newVNode) (v_component newVNode)
             (v_dom oldVNode) (v_children oldVNode)
             (v_flags newVNode) (v_hydrating newVNode)
      else newVNode)"




text \<open>The reaction that \<^verbatim>\<open>__c\<close> registers for its \<open>k\<close>-th closure on the boundary
  \<open>c\<close>: \<^verbatim>\<open>promise.then(onResolved, onResolved)\<close>, whose result is dropped.\<close>

definition rx :: "cref \<Rightarrow> nat \<Rightarrow> callback reaction" where
  "rx c k = \<lparr>onFulfilled = Some (OnResolved c k), onRejected = Some (OnResolved c k), derived = None\<rparr>"

subsection \<open>Passes and settlements\<close>

text \<open>
  One render pass in which the hook hands the signals \<open>pvs\<close> (each with its signalling
  node) to the boundary \<open>c\<close>, in this order; and the settlement of signals one after the
  other, the job queue being emptied after each.
\<close>

definition register_all :: "cref \<Rightarrow> (pref \<times> vnode) list \<Rightarrow> world \<Rightarrow> world" where
  "register_all c pvs w = fold (\<lambda>(p, v). childDidSuspend c p v) pvs w"

definition settle_all :: "(pref \<times> outcome) list \<Rightarrow> world \<Rightarrow> world" where
  "settle_all ss w = fold (\<lambda>(p, out). settle_signal p out) ss w"

text \<open>The signals in \<open>U\<close> are pending, and their reactions are exactly the closures
  \<open>ks p\<close> of the boundary \<open>c\<close>, none of which has run; no closure serves two signals.\<close>

definition tracked :: "cref \<Rightarrow> world \<Rightarrow> pref set \<Rightarrow> (pref \<Rightarrow> nat list) \<Rightarrow> bool" where
  "tracked c w U ks \<longleftrightarrow>
     finite U \<and>
     (\<forall>p\<in>U. pstate (store w) p = Pending \<and>
        reactions (store w) p = map (rx c) (ks p) \<and> ks p \<noteq> [] \<and> distinct (ks p) \<and>
        (\<forall>k\<in>set (ks p). \<not> resolved w k \<and> k < nextClosure w)) \<and>
     (\<forall>p\<in>U. \<forall>q\<in>U. p \<noteq> q \<longrightarrow> set (ks p) \<inter> set (ks q) = {})"

text \<open>A store without promises, and the world in which every boundary has just been
  constructed with the props \<open>ps\<close>.\<close>

definition empty_store :: "'cb pstore" where
  "empty_store = \<lparr>pstate = (\<lambda>p. Pending), reactions = (\<lambda>p. []), jobs = [], fresh = 0\<rparr>"

definition initial_world :: "suspense_props \<Rightarrow> world" where
  "initial_world ps =
     \<lparr>boundary = (\<lambda>c. Suspense_constructor ps), resolved = (\<lambda>k. False), nextClosure = 0,
      store = empty_store, oldCatchError = True, forwarded = []\<rparr>"

text \<open>
  The life of the boundaries: a signal is handed to a boundary, a signal settles (and
  the job queue is emptied), or the jobs queued for already settled signals run.
\<close>

datatype event = Suspend cref pref vnode | Settle pref outcome | RunJobs

fun step :: "event \<Rightarrow> world \<Rightarrow> world" where
  "step (Suspend c p v) w = childDidSuspend c p v w"
| "step (Settle p out) w = settle_signal p out w"
| "step RunJobs w = run_jobs (length (jobs (store w))) w"

definition lifetime :: "event list \<Rightarrow> world \<Rightarrow> world" where
  "lifetime evs w = fold step evs w"

definition counter_ok :: "world \<Rightarrow> bool" where
  "counter_ok w \<longleftrightarrow>
     (\<forall>b. 0 \<le> pendingCount (boundary w b) \<and>
          (suspended (boundary w b) \<longrightarrow> 0 < pendingCount (boundary w b)))"

definition loading_props :: suspense_props where
  "loading_props = \<lparr>fallback = JStr ''Loading'', children = JStr ''page''\<rparr>"

definition plain_vnode :: vnode where
  "plain_vnode = VNode None None None None None None"







text \<open>What the host draws for an output of \<^verbatim>\<open>render\<close>: nothing for \<^verbatim>\<open>null\<close>, and
  for a fragment its children other than \<^verbatim>\<open>null\<close>, \<^verbatim>\<open>undefined\<close> and booleans.\<close>

definition contents :: "element option \<Rightarrow> jsval list" where
  "contents out =
     (case out of
        None \<Rightarrow> []
      | Some (Element t c ks) \<Rightarrow>
          filter (\<lambda>k. \<not> nullish k \<and> (case k of JBool b \<Rightarrow> False | _ \<Rightarrow> True)) ks)"

section \<open>The lazy wrapper\<close>

text \<open>
  The loader of the caller, \<^verbatim>\<open>load: () => Promise<{ default: T } | T>\<close>: a call of it
  returns a promise or raises a value.  A loader is given by what each of its calls
  does, the first call being call 0.
\<close>

datatype load_outcome = LoadReturns | LoadRaises jsval

text \<open>
  The callbacks that the wrapper registers on promises: the function given to
  \<^verbatim>\<open>load().then\<close> in \<^verbatim>\<open>loadModule\<close>, and \<^verbatim>\<open>() => update(1)\<close> of the mounted
  instance \<open>h\<close> of the wrapper.
\<close>

datatype lazy_callback = LoadModuleThen | UpdateOne nat

text \<open>
  The loader, the variables \<^verbatim>\<open>promise\<close> and \<^verbatim>\<open>component\<close> of one call of
  \<^verbatim>\<open>lazy(load)\<close>, the number of calls of \<^verbatim>\<open>load\<close> made so far, the calls \<^verbatim>\<open>update(1)\<close> made so far (by
  mounted instance, oldest first; the host schedules a re-render of the instance for a
  call), and the promise store.
\<close>

record lazy_state =
  loader :: "nat \<Rightarrow> load_outcome"
  promise :: "pref option"
  component :: jsval
  loadCalls :: nat
  updateCalls :: "nat list"
  lstore :: "lazy_callback pstore"

text \<open>The state right after \<^verbatim>\<open>lazy(load)\<close> has returned.\<close>

definition lazy :: "(nat \<Rightarrow> load_outcome) \<Rightarrow> lazy_state" where
  "lazy ld = \<lparr>loader = ld, promise = None, component = JUndefined, loadCalls = 0,
              updateCalls = [], lstore = empty_store\<rparr>"

text \<open>
  One call of the loader.  When it returns, it returns a promise, which the environment
  settles later (a promise that is settled already when it is returned behaves in the
  same way, its reactions being run from the job queue).  When it raises, the value
  raised passes through \<^verbatim>\<open>loadModule\<close> to its caller.
\<close>

definition load :: "lazy_state \<Rightarrow> (jsval + pref) \<times> lazy_state" where
  "load l =
     (case loader l (loadCalls l) of
        LoadRaises e \<Rightarrow> (Inl e, l\<lparr>loadCalls := Suc (loadCalls l)\<rparr>)
      | LoadReturns \<Rightarrow>
          (let (m, st) = new_promise (lstore l)
           in (Inr m, l\<lparr>loadCalls := Suc (loadCalls l), lstore := st\<rparr>)))"

text \<open>\<^verbatim>\<open>load().then((m) => { component = (m && m.default) || m; return component; })\<close>:
  the result is the promise derived by \<^verbatim>\<open>then\<close>.\<close>

definition loadModule :: "lazy_state \<Rightarrow> (jsval + pref) \<times> lazy_state" where
  "loadModule l =
     (case load l of
        (Inl e, l1) \<Rightarrow> (Inl e, l1)
      | (Inr m, l1) \<Rightarrow>
          (let (d, st) = new_promise (lstore l1)
           in (Inr d, l1\<lparr>lstore := promise_then m (Some LoadModuleThen) None (Some d) st\<rparr>)))"

text \<open>The callback of \<^verbatim>\<open>loadModule\<close>: it returns the content and stores it in
  \<^verbatim>\<open>component\<close>.\<close>

definition loadModule_then :: "jsval \<Rightarrow> lazy_state \<Rightarrow> jsval \<times> lazy_state" where
  "loadModule_then m l =
     (let a = (if truthy m then get m ''default'' else m);
          c = (if truthy a then a else m)
      in (c, l\<lparr>component := c\<rparr>))"

text \<open>\<^verbatim>\<open>if (!promise) promise = loadModule();\<close> (a promise is truthy): when the loader
  raises, the assignment does not happen and the value raised passes on.\<close>

definition ensure_promise :: "lazy_state \<Rightarrow> (jsval + pref) \<times> lazy_state" where
  "ensure_promise l =
     (case promise l of
        None \<Rightarrow>
          (case loadModule l of
             (Inl e, l1) \<Rightarrow> (Inl e, l1)
           | (Inr d, l1) \<Rightarrow> (Inr d, l1\<lparr>promise := Some d\<rparr>))
      | Some d \<Rightarrow> (Inr d, l))"

text \<open>
  One render attempt of the wrapper for the mounted instance \<open>h\<close>.  The cell of
  \<^verbatim>\<open>useRef(component)\<close> belongs to the instance and is kept by the host: \<open>None\<close>
  before the first render attempt of the instance.  The attempt returns an element,
  raises the promise (\<^verbatim>\<open>throw promise\<close>), or raises what the loader raised.
\<close>

datatype render_result = Returned element | Thrown pref | Raised jsval

definition LazyComponent ::
  "jsval \<Rightarrow> nat \<Rightarrow> jsval option \<Rightarrow> lazy_state \<Rightarrow> render_result \<times> jsval option \<times> lazy_state" where
  "LazyComponent lprops h ref l =
     (let current = (case ref of None \<Rightarrow> component l | Some r \<Rightarrow> r)
      in case ensure_promise l of
           (Inl e, l1) \<Rightarrow> (Raised e, Some current, l1)
         | (Inr d, l1) \<Rightarrow>
             if component l1 \<noteq> JUndefined
             then (Returned (createElement (component l1) lprops []), Some current, l1)
             else if \<not> truthy current
             then (Thrown d, Some JUndefined,
                   l1\<lparr>lstore := promise_then d (Some (UpdateOne h)) None None (lstore l1)\<rparr>)
             else (Thrown d, Some current, l1))"

text \<open>\<^verbatim>\<open>preload\<close> returns the promise, or raises what the loader raised.\<close>

definition preload :: "lazy_state \<Rightarrow> (jsval + pref) \<times> lazy_state" where
  "preload l = ensure_promise l"

text \<open>The reaction of \<^verbatim>\<open>promise.then(() => update(1))\<close>: no failure handler, result
  dropped.\<close>

definition update_reaction :: "nat \<Rightarrow> lazy_callback reaction" where
  "update_reaction h = \<lparr>onFulfilled = Some (UpdateOne h), onRejected = None, derived = None\<rparr>"

text \<open>
  Running a job: the handler for the outcome is called with the value and the promise
  derived by \<^verbatim>\<open>then\<close> is resolved with what the handler returns (a returned promise is
  followed); without a handler the outcome passes to the derived promise.
\<close>

definition settle_derived :: "pref option \<Rightarrow> outcome \<Rightarrow> lazy_state \<Rightarrow> lazy_state" where
  "settle_derived d out l =
     (case d of None \<Rightarrow> l | Some q \<Rightarrow> l\<lparr>lstore := settle q out (lstore l)\<rparr>)"

definition resolve_derived :: "pref option \<Rightarrow> jsval \<Rightarrow> lazy_state \<Rightarrow> lazy_state" where
  "resolve_derived d y l =
     (case d of
        None \<Rightarrow> l
      | Some q \<Rightarrow>
          (case y of
             JPromise t \<Rightarrow> l\<lparr>lstore := promise_then t None None (Some q) (lstore l)\<rparr>
           | _ \<Rightarrow> l\<lparr>lstore := settle q (Fulfill y) (lstore l)\<rparr>))"

definition run_callback :: "lazy_callback \<Rightarrow> jsval \<Rightarrow> lazy_state \<Rightarrow> jsval \<times> lazy_state" where
  "run_callback cb x l =
     (case cb of
        LoadModuleThen \<Rightarrow> loadModule_then x l
      | UpdateOne h \<Rightarrow> (JUndefined, l\<lparr>updateCalls := updateCalls l @ [h]\<rparr>))"

definition lazy_run_reaction :: "lazy_callback reaction \<Rightarrow> outcome \<Rightarrow> lazy_state \<Rightarrow> lazy_state" where
  "lazy_run_reaction r out l =
     (case out of
        Fulfill x \<Rightarrow>
          (case onFulfilled r of
             None \<Rightarrow> settle_derived (derived r) (Fulfill x) l
           | Some cb \<Rightarrow> (let (y, l1) = run_callback cb x l in resolve_derived (derived r) y l1))
      | Reject e \<Rightarrow>
          (case onRejected r of
             None \<Rightarrow> settle_derived (derived r) (Reject e) l
           | Some cb \<Rightarrow> (let (y, l1) = run_callback cb e l in resolve_derived (derived r) y l1)))"

fun lazy_run_jobs :: "nat \<Rightarrow> lazy_state \<Rightarrow> lazy_state" where
  "lazy_run_jobs 0 l = l"
| "lazy_run_jobs (Suc n) l =
     (case jobs (lstore l) of
        [] \<Rightarrow> l
      | (r, out) # js \<Rightarrow>
          lazy_run_jobs n (lazy_run_reaction r out (l\<lparr>lstore := (lstore l)\<lparr>jobs := js\<rparr>\<rparr>)))"

text \<open>The environment settles a promise.\<close>

definition settle_load :: "pref \<Rightarrow> outcome \<Rightarrow> lazy_state \<Rightarrow> lazy_state" where
  "settle_load p out l = l\<lparr>lstore := settle p out (lstore l)\<rparr>"

text \<open>
  The life of one wrapper: calls of \<^verbatim>\<open>preload\<close>, render attempts (with the props and
  the mounted instance), settlements, and the run of the next job of the queue.  A trace
  holds the state, the \<^verbatim>\<open>useRef\<close> cell of every mounted instance, and the results of
  the calls, oldest first.
\<close>

datatype lazy_event = Preload | Render jsval nat | SettleLoad pref outcome | RunJob

datatype lazy_result = PreloadReturned pref | PreloadRaised jsval | Rendered render_result

type_synonym lazy_trace = "lazy_state \<times> (nat \<Rightarrow> jsval option) \<times> lazy_result list"

fun lazy_step :: "lazy_event \<Rightarrow> lazy_trace \<Rightarrow> lazy_trace" where
  "lazy_step Preload (l, refs, res) =
     (case preload l of
        (Inl e, l1) \<Rightarrow> (l1, refs, res @ [PreloadRaised e])
      | (Inr d, l1) \<Rightarrow> (l1, refs, res @ [PreloadReturned d]))"
| "lazy_step (Render lprops h) (l, refs, res) =
     (let (r, c, l1) = LazyComponent lprops h (refs h) l
      in (l1, refs(h := c), res @ [Rendered r]))"
| "lazy_step (SettleLoad p out) (l, refs, res) = (settle_load p out l, refs, res)"
| "lazy_step RunJob (l, refs, res) = (lazy_run_jobs 1 l, refs, res)"

definition lazy_run :: "(nat \<Rightarrow> load_outcome) \<Rightarrow> lazy_event list \<Rightarrow> lazy_trace" where
  "lazy_run ld evs = fold lazy_step evs (lazy ld, (\<lambda>h. None), [])"

text \<open>The events that call \<^verbatim>\<open>preload\<close> or render, and the events that fulfil a
  promise.\<close>

fun starts_load :: "lazy_event \<Rightarrow> bool" where
  "starts_load Preload = True"
| "starts_load (Render lprops h) = True"
| "starts_load _ = False"

fun is_fulfilment :: "lazy_event \<Rightarrow> bool" where
  "is_fulfilment (SettleLoad p (Fulfill x)) = True"
| "is_fulfilment _ = False"

text \<open>The promises that calls of \<^verbatim>\<open>preload\<close> have returned and render attempts
  have raised.\<close>

definition returned_promises :: "lazy_result list \<Rightarrow> pref set" where
  "returned_promises res = {d. PreloadReturned d \<in> set res \<or> Rendered (Thrown d) \<in> set res}"

text \<open>The values that calls of \<^verbatim>\<open>preload\<close> and render attempts have raised from the
  loader.\<close>

definition raised_values :: "lazy_result list \<Rightarrow> jsval set" where
  "raised_values res = {e. PreloadRaised e \<in> set res \<or> Rendered (Raised e) \<in> set res}"

definition load_once :: "bool \<Rightarrow> lazy_trace \<Rightarrow> bool" where
  "load_once started t \<longleftrightarrow>
     (case t of (l, refs, res) \<Rightarrow>
        loader l 0 = LoadReturns \<and> raised_values res = {} \<and>
        (if started
         then loadCalls l = 1 \<and> (\<exists>d. promise l = Some d \<and> returned_promises res \<subseteq> {d})
         else loadCalls l = 0 \<and> promise l = None \<and> returned_promises res = {}))"

text \<open>No content is cached, no re-render has been requested, and nothing in the store
  is fulfilled or reacts to a rejection.\<close>

definition only_rejections :: "lazy_state \<Rightarrow> bool" where
  "only_rejections l \<longleftrightarrow>
     component l = JUndefined \<and> updateCalls l = [] \<and>
     (\<forall>j\<in>set (jobs (lstore l)). (\<exists>e. snd j = Reject e) \<and> onRejected (fst j) = None) \<and>
     (\<forall>p. \<forall>r\<in>set (reactions (lstore l) p). onRejected r = None) \<and>
     (\<forall>p x. pstate (lstore l) p \<noteq> Settled (Fulfill x))"

text \<open>
  In the store of a new wrapper the loader's promise is promise 0 and the promise derived
  in \<^verbatim>\<open>loadModule\<close> is promise 1.  Until promise 1 settles, the reaction that links
  them waits on promise 0 or in the job queue.
\<close>

definition load_reaction :: "lazy_callback reaction" where
  "load_reaction = \<lparr>onFulfilled = Some LoadModuleThen, onRejected = None, derived = Some 1\<rparr>"

definition load_chain :: "lazy_state \<Rightarrow> bool" where
  "load_chain l \<longleftrightarrow>
     (\<forall>j\<in>set (jobs (lstore l)). derived (fst j) \<noteq> Some 0) \<and>
     (\<forall>p. \<forall>r\<in>set (reactions (lstore l) p). derived r \<noteq> Some 0) \<and>
     (if promise l = None then fresh (lstore l) = 0
      else promise l = Some 1 \<and>
           ((pstate (lstore l) 0 = Pending \<and> load_reaction \<in> set (reactions (lstore l) 0)) \<or>
            (\<exists>out. (load_reaction, out) \<in> set (jobs (lstore l))) \<or>
            pstate (lstore l) 1 \<noteq> Pending))"

text \<open>
  The results of a loader, by its type, are a component or a module whose default field
  holds a component; a component (\<^verbatim>\<open>T extends FunctionComponent<any>\<close>) is a
  function.
\<close>

fun is_component :: "jsval \<Rightarrow> bool" where
  "is_component (JFun f) = True"
| "is_component _ = False"

text \<open>
  The renderable content as the specification words it: the value of the default field
  when the resolved value has one, the resolved value itself otherwise.
\<close>

definition spec_content :: "jsval \<Rightarrow> jsval" where
  "spec_content m =
     (case m of
        JObj fs \<Rightarrow> (case map_of fs ''default'' of Some x \<Rightarrow> x | None \<Rightarrow> m)
      | _ \<Rightarrow> m)"

text \<open>A loader whose calls return, and a loader whose calls raise.\<close>

definition returning_loader :: "nat \<Rightarrow> load_outcome" where
  "returning_loader k = LoadReturns"

definition raising_loader :: "nat \<Rightarrow> load_outcome" where
  "raising_loader k = LoadRaises (JStr ''boom'')"

text \<open>Two runs from a new wrapper whose loader returns: a render attempt after which the
  loader's promise is rejected, and a preload after which it is fulfilled with a
  module.\<close>

definition offline_run :: lazy_state where
  "offline_run =
     lazy_run_jobs 2 (settle_load 0 (Reject (JStr ''offline''))
       (snd (snd (LazyComponent JNull 0 None (lazy returning_loader)))))"

definition loaded_run :: lazy_state where
  "loaded_run =
     lazy_run_jobs 2 (settle_load 0 (Fulfill (JObj [(''default'', JFun 9)]))
       (snd (preload (lazy returning_loader))))"

section \<open>Properties of the boundary\<close>

subsection \<open>What each operation does to each part of the world\<close>

lemma boundary_upd_boundary [simp]:
  "boundary (upd_boundary c f w) b = (if b = c then f (boundary w c) else boundary w b)"
  by (simp add: upd_boundary_def)

lemma upd_boundary_fields [simp]:
  "resolved (upd_boundary c f w) = resolved w"
  "nextClosure (upd_boundary c f w) = nextClosure w"
  "store (upd_boundary c f w) = store w"
  "oldCatchError (upd_boundary c f w) = oldCatchError w"
  "forwarded (upd_boundary c f w) = forwarded w"
  by (simp_all add: upd_boundary_def)

lemma boundary_setState [simp]:
  "boundary (setState c b w) a =
     (if a = c then (boundary w c)\<lparr>suspended := b, setStateCalls := setStateCalls (boundary w c) @ [b]\<rparr>
      else boundary w a)"
  by (simp add: setState_def)

lemma setState_fields [simp]:
  "resolved (setState c b w) = resolved w"
  "nextClosure (setState c b w) = nextClosure w"
  "store (setState c b w) = store w"
  "oldCatchError (setState c b w) = oldCatchError w"
  "forwarded (setState c b w) = forwarded w"
  by (simp_all add: setState_def)

lemma boundary_onResolved:
  "boundary (onResolved c k w) b =
     (if b = c \<and> \<not> resolved w k
      then (if pendingCount (boundary w c) - 1 \<le> 0
            then (boundary w c)\<lparr>pendingCount := 0, suspended := False,
                   setStateCalls := setStateCalls (boundary w c) @ [False]\<rparr>
            else (boundary w c)\<lparr>pendingCount := pendingCount (boundary w c) - 1\<rparr>)
      else boundary w b)"
  by (simp add: onResolved_def Let_def)

lemma resolved_onResolved [simp]:
  "resolved (onResolved c k w) j = (j = k \<or> resolved w j)"
  by (auto simp add: onResolved_def Let_def)

lemma onResolved_fields [simp]:
  "nextClosure (onResolved c k w) = nextClosure w"
  "store (onResolved c k w) = store w"
  "oldCatchError (onResolved c k w) = oldCatchError w"
  "forwarded (onResolved c k w) = forwarded w"
  by (auto simp add: onResolved_def Let_def)

lemma boundary_childDidSuspend:
  "boundary (childDidSuspend c p v w) b =
     (if b = c
      then (if isHydrating v
            then (boundary w c)\<lparr>pendingCount := pendingCount (boundary w c) + 1\<rparr>
            else (boundary w c)\<lparr>pendingCount := pendingCount (boundary w c) + 1, suspended := True,
                   setStateCalls := setStateCalls (boundary w c) @ [True]\<rparr>)
      else boundary w b)"
  by (simp add: childDidSuspend_def Let_def)

lemma childDidSuspend_fields [simp]:
  "resolved (childDidSuspend c p v w) = (resolved w)(nextClosure w := False)"
  "nextClosure (childDidSuspend c p v w) = Suc (nextClosure w)"
  "store (childDidSuspend c p v w) =
     promise_then p (Some (OnResolved c (nextClosure w))) (Some (OnResolved c (nextClosure w))) None (store w)"
  "oldCatchError (childDidSuspend c p v w) = oldCatchError w"
  "forwarded (childDidSuspend c p v w) = forwarded w"
  by (simp_all add: childDidSuspend_def Let_def)

subsection \<open>Running the job queue\<close>

lemma onResolved_store_upd:
  "onResolved c k (w\<lparr>store := s\<rparr>) = (onResolved c k w)\<lparr>store := s\<rparr>"
  by (simp add: onResolved_def Let_def setState_def upd_boundary_def)

lemma run_reaction_store_upd:
  "run_reaction r out (w\<lparr>store := s\<rparr>) = (run_reaction r out w)\<lparr>store := s\<rparr>"
  by (simp add: run_reaction_def onResolved_store_upd split: option.splits outcome.splits callback.splits)

lemma store_run_reaction [simp]: "store (run_reaction r out w) = store w"
  by (simp add: run_reaction_def split: option.splits outcome.splits callback.splits)

lemma run_reaction_rx [simp]: "run_reaction (rx c k) out w = onResolved c k w"
  by (simp add: run_reaction_def rx_def split: outcome.splits)

lemma fold_run_reaction_store_upd:
  "fold (\<lambda>(r, out). run_reaction r out) js (w\<lparr>store := s\<rparr>) =
     (fold (\<lambda>(r, out). run_reaction r out) js w)\<lparr>store := s\<rparr>"
  by (induction js arbitrary: w) (auto simp: run_reaction_store_upd)

lemma run_jobs_fold:
  "length (jobs (store w)) \<le> n \<Longrightarrow>
     run_jobs n w =
       (fold (\<lambda>(r, out). run_reaction r out) (jobs (store w)) w)\<lparr>store := (store w)\<lparr>jobs := []\<rparr>\<rparr>"
proof (induction n arbitrary: w)
  case 0
  then show ?case by simp
next
  case (Suc n)
  show ?case
  proof (cases "jobs (store w)")
    case Nil
    then show ?thesis by simp
  next
    case (Cons j js)
    obtain r out where j: "j = (r, out)" by (cases j)
    let ?w = "run_reaction r out (w\<lparr>store := (store w)\<lparr>jobs := js\<rparr>\<rparr>)"
    have len: "length (jobs (store ?w)) \<le> n" using Suc.prems Cons by simp
    show ?thesis
      using Suc.IH [OF len] Cons j
      by (simp add: run_reaction_store_upd fold_run_reaction_store_upd)
  qed
qed

lemma settle_signal_parts:
  assumes "jobs (store w) = []" and "pstate (store w) p = Pending"
  shows "settle_signal p out w =
           (fold (\<lambda>r. run_reaction r out) (reactions (store w) p) w)
             \<lparr>store := (store w)\<lparr>pstate := (pstate (store w))(p := Settled out),
                                    reactions := (reactions (store w))(p := [])\<rparr>\<rparr>"
proof -
  have f: "fold (\<lambda>(r, x). run_reaction r x) (map (\<lambda>r. (r, out)) rs) v =
           fold (\<lambda>r. run_reaction r out) rs v" for rs v
    by (induction rs arbitrary: v) simp_all
  show ?thesis
    using assms
    by (simp add: settle_signal_def settle_def Let_def run_jobs_fold
        fold_run_reaction_store_upd f)
qed

lemma settle_signal_drains: "jobs (store (settle_signal p out w)) = []"
  by (simp add: settle_signal_def Let_def run_jobs_fold)

lemma fold_run_reaction_rx:
  "fold (\<lambda>r. run_reaction r out) (map (rx c) ks) w = fold (onResolved c) ks w"
  by (induction ks arbitrary: w) simp_all

lemma resolved_fold_onResolved:
  "resolved (fold (onResolved c) ks w) j = (j \<in> set ks \<or> resolved w j)"
  by (induction ks arbitrary: w) auto

lemma boundary_fold_onResolved_other:
  "b \<noteq> c \<Longrightarrow> boundary (fold (onResolved c) ks w) b = boundary w b"
  by (induction ks arbitrary: w) (simp_all add: boundary_onResolved)

lemma boundary_fold_onResolved:
  assumes "distinct ks" and "\<forall>k\<in>set ks. \<not> resolved w k"
    and "int (length ks) \<le> pendingCount (boundary w c)" and "ks \<noteq> []"
  shows "boundary (fold (onResolved c) ks w) c =
           (if pendingCount (boundary w c) = int (length ks)
            then (boundary w c)\<lparr>pendingCount := 0, suspended := False,
                   setStateCalls := setStateCalls (boundary w c) @ [False]\<rparr>
            else (boundary w c)\<lparr>pendingCount := pendingCount (boundary w c) - int (length ks)\<rparr>)"
  using assms
proof (induction ks arbitrary: w)
  case Nil
  then show ?case by simp
next
  case (Cons k ks)
  let ?w = "onResolved c k w"
  show ?case
  proof (cases "ks = []")
    case True
    then show ?thesis using Cons.prems by (auto simp: boundary_onResolved)
  next
    case False
    have 1: "distinct ks" using Cons.prems by simp
    have 2: "\<forall>j\<in>set ks. \<not> resolved ?w j" using Cons.prems by auto
    have gt: "1 < pendingCount (boundary w c)"
      using Cons.prems False by (cases ks) auto
    have b: "boundary ?w c = (boundary w c)\<lparr>pendingCount := pendingCount (boundary w c) - 1\<rparr>"
      using Cons.prems gt by (simp add: boundary_onResolved)
    have 3: "int (length ks) \<le> pendingCount (boundary ?w c)"
      using Cons.prems by (simp add: b)
    show ?thesis
      using Cons.IH [OF 1 2 3 False] by (simp add: b)
  qed
qed

lemma settle_all_Cons [simp]:
  "settle_all ((p, out) # ss) w = settle_all ss (settle_signal p out w)"
  by (simp add: settle_all_def)

lemma settle_all_Nil [simp]: "settle_all [] w = w"
  by (simp add: settle_all_def)

lemma settle_all_boundary:
  assumes "distinct (map fst ss)"
    and "jobs (store w) = []"
    and "\<forall>p\<in>fst ` set ss. pstate (store w) p = Pending \<and>
           reactions (store w) p = map (rx c) (ks p) \<and> ks p \<noteq> [] \<and> distinct (ks p) \<and>
           (\<forall>k\<in>set (ks p). \<not> resolved w k)"
    and "\<forall>p\<in>fst ` set ss. \<forall>q\<in>fst ` set ss. p \<noteq> q \<longrightarrow> set (ks p) \<inter> set (ks q) = {}"
    and "pendingCount (boundary w c) = int (sum_list (map (\<lambda>x. length (ks (fst x))) ss))"
    and "n \<le> length ss"
  shows "boundary (settle_all (take n ss) w) c =
           (if n = length ss \<and> ss \<noteq> []
            then (boundary w c)\<lparr>pendingCount := 0, suspended := False,
                   setStateCalls := setStateCalls (boundary w c) @ [False]\<rparr>
            else (boundary w c)\<lparr>pendingCount :=
                   int (sum_list (map (\<lambda>x. length (ks (fst x))) (drop n ss)))\<rparr>)"
  using assms
proof (induction ss arbitrary: w n)
  case Nil
  then show ?case by simp
next
  case (Cons s ss)
  obtain p out where s: "s = (p, out)" by (cases s)
  show ?case
  proof (cases n)
    case 0
    then show ?thesis using Cons.prems(5) by simp
  next
    case (Suc m)
    let ?w = "settle_signal p out w"
    let ?rest = "sum_list (map (\<lambda>x. length (ks (fst x))) ss)"
    have pend: "pstate (store w) p = Pending" and rs: "reactions (store w) p = map (rx c) (ks p)"
      and ne: "ks p \<noteq> []" and dk: "distinct (ks p)" and nr: "\<forall>k\<in>set (ks p). \<not> resolved w k"
      using Cons.prems(3) s by auto
    have cnt: "pendingCount (boundary w c) = int (length (ks p)) + int ?rest"
      using Cons.prems(5) s by simp
    have w_eq: "?w = (fold (onResolved c) (ks p) w)
             \<lparr>store := (store w)\<lparr>pstate := (pstate (store w))(p := Settled out),
                                    reactions := (reactions (store w))(p := [])\<rparr>\<rparr>"
      using settle_signal_parts [OF Cons.prems(2) pend, of out] by (simp add: rs fold_run_reaction_rx)
    have le: "int (length (ks p)) \<le> pendingCount (boundary w c)" using cnt by simp
    have bw: "boundary ?w c =
           (if ?rest = 0
            then (boundary w c)\<lparr>pendingCount := 0, suspended := False,
                   setStateCalls := setStateCalls (boundary w c) @ [False]\<rparr>
            else (boundary w c)\<lparr>pendingCount := int ?rest\<rparr>)"
      using boundary_fold_onResolved [OF dk nr le ne] cnt by (simp add: w_eq)
    have rest0: "?rest = 0 \<longleftrightarrow> ss = []"
    proof
      assume z: "?rest = 0"
      show "ss = []"
      proof (rule ccontr)
        assume "ss \<noteq> []"
        then obtain t ts where t: "ss = t # ts" by (cases ss) auto
        then have "ks (fst t) \<noteq> []" using Cons.prems(3) by auto
        then show False using z t by simp
      qed
    qed simp
    show ?thesis
    proof (cases "ss = []")
      case True
      then show ?thesis using Suc s bw Cons.prems(6) by simp
    next
      case False
      have 1: "distinct (map fst ss)" using Cons.prems(1) by simp
      have 2: "jobs (store ?w) = []" using Cons.prems(2) by (simp add: w_eq)
      have pnot: "p \<notin> fst ` set ss" using Cons.prems(1) s by auto
      have 3: "\<forall>q\<in>fst ` set ss. pstate (store ?w) q = Pending \<and>
           reactions (store ?w) q = map (rx c) (ks q) \<and> ks q \<noteq> [] \<and> distinct (ks q) \<and>
           (\<forall>k\<in>set (ks q). \<not> resolved ?w k)"
      proof
        fix q assume q: "q \<in> fst ` set ss"
        then have qp: "q \<noteq> p" using pnot by auto
        have qin: "q \<in> fst ` set (s # ss)" using q by auto
        have pin: "p \<in> fst ` set (s # ss)" using s by force
        have disj: "set (ks q) \<inter> set (ks p) = {}"
          using Cons.prems(4) qin pin qp by blast
        have old: "pstate (store w) q = Pending \<and>
           reactions (store w) q = map (rx c) (ks q) \<and> ks q \<noteq> [] \<and> distinct (ks q) \<and>
           (\<forall>k\<in>set (ks q). \<not> resolved w k)"
          using Cons.prems(3) qin by blast
        show "pstate (store ?w) q = Pending \<and>
           reactions (store ?w) q = map (rx c) (ks q) \<and> ks q \<noteq> [] \<and> distinct (ks q) \<and>
           (\<forall>k\<in>set (ks q). \<not> resolved ?w k)"
          using old qp disj by (auto simp: w_eq resolved_fold_onResolved)
      qed
      have 4: "\<forall>a\<in>fst ` set ss. \<forall>b\<in>fst ` set ss. a \<noteq> b \<longrightarrow> set (ks a) \<inter> set (ks b) = {}"
        using Cons.prems(4) by auto
      have nz: "?rest \<noteq> 0" using False rest0 by blast
      have bw2: "boundary ?w c = (boundary w c)\<lparr>pendingCount := int ?rest\<rparr>"
        using bw nz by presburger
      have 5: "pendingCount (boundary ?w c) = int ?rest"
        by (simp add: bw2)
      have 6: "m \<le> length ss" using Cons.prems(6) Suc by simp
      show ?thesis
        using Cons.IH [OF 1 2 3 4 5 6] Suc s False by (simp add: bw2)
    qed
  qed
qed

subsection \<open>The registrations of one pass\<close>

lemma pstate_promise_then [simp]: "pstate (promise_then p f g d st) = pstate st"
  by (simp add: promise_then_def Let_def split: pstate.splits)

lemma fresh_promise_then [simp]: "fresh (promise_then p f g d st) = fresh st"
  by (simp add: promise_then_def Let_def split: pstate.splits)

lemma reactions_promise_then_pending:
  "pstate st p = Pending \<Longrightarrow>
     reactions (promise_then p f g d st) q =
       (if q = p then reactions st p @ [\<lparr>onFulfilled = f, onRejected = g, derived = d\<rparr>]
        else reactions st q)"
  by (simp add: promise_then_def Let_def)

lemma jobs_promise_then_pending:
  "pstate st p = Pending \<Longrightarrow> jobs (promise_then p f g d st) = jobs st"
  by (simp add: promise_then_def Let_def)

lemma tracked_step:
  assumes t: "tracked c w U ks"
    and p: "p \<in> U \<or> (pstate (store w) p = Pending \<and> reactions (store w) p = [])"
    and ks'_def: "ks' = ks(p := (if p \<in> U then ks p else []) @ [nextClosure w])"
  shows "tracked c (childDidSuspend c p v w) (insert p U) ks'"
    and "(\<Sum>q\<in>insert p U. length (ks' q)) = (\<Sum>q\<in>U. length (ks q)) + 1"
proof -
  let ?w = "childDidSuspend c p v w"
  have fin: "finite U" using t by (simp add: tracked_def)
  have pend: "pstate (store w) p = Pending" using t p by (auto simp: tracked_def)
  have old: "reactions (store w) p = map (rx c) (if p \<in> U then ks p else [])"
    using t p by (auto simp: tracked_def)
  have lt: "\<forall>q\<in>U. \<forall>k\<in>set (ks q). k < nextClosure w"
    using t by (auto simp: tracked_def)
  have a: "\<forall>q\<in>insert p U. pstate (store ?w) q = Pending \<and>
        reactions (store ?w) q = map (rx c) (ks' q) \<and> ks' q \<noteq> [] \<and> distinct (ks' q) \<and>
        (\<forall>k\<in>set (ks' q). \<not> resolved ?w k \<and> k < nextClosure ?w)"
  proof
    fix q assume q: "q \<in> insert p U"
    show "pstate (store ?w) q = Pending \<and>
        reactions (store ?w) q = map (rx c) (ks' q) \<and> ks' q \<noteq> [] \<and> distinct (ks' q) \<and>
        (\<forall>k\<in>set (ks' q). \<not> resolved ?w k \<and> k < nextClosure ?w)"
    proof (cases "q = p")
      case True
      have "distinct (if p \<in> U then ks p else [])" using t by (auto simp: tracked_def)
      moreover have "\<forall>k\<in>set (if p \<in> U then ks p else []). \<not> resolved w k \<and> k < nextClosure w"
        using t by (auto simp: tracked_def)
      ultimately show ?thesis
        using True pend old
        by (auto simp: ks'_def reactions_promise_then_pending rx_def)
    next
      case False
      then have qU: "q \<in> U" using q by simp
      have "pstate (store w) q = Pending \<and>
        reactions (store w) q = map (rx c) (ks q) \<and> ks q \<noteq> [] \<and> distinct (ks q) \<and>
        (\<forall>k\<in>set (ks q). \<not> resolved w k \<and> k < nextClosure w)"
        using t qU by (simp add: tracked_def)
      then show ?thesis
        using False pend by (auto simp: ks'_def reactions_promise_then_pending)
    qed
  qed
  have b: "\<forall>a\<in>insert p U. \<forall>b\<in>insert p U. a \<noteq> b \<longrightarrow> set (ks' a) \<inter> set (ks' b) = {}"
  proof (intro ballI impI)
    fix a b assume ab: "a \<in> insert p U" "b \<in> insert p U" "a \<noteq> b"
    have old_disj: "\<forall>x\<in>U. \<forall>y\<in>U. x \<noteq> y \<longrightarrow> set (ks x) \<inter> set (ks y) = {}"
      using t by (simp add: tracked_def)
    show "set (ks' a) \<inter> set (ks' b) = {}"
    proof (cases "a = p")
      case True
      then have bU: "b \<in> U" "b \<noteq> p" using ab by auto
      have "nextClosure w \<notin> set (ks b)" using lt bU by auto
      moreover have "p \<in> U \<Longrightarrow> set (ks p) \<inter> set (ks b) = {}" using old_disj bU by blast
      ultimately show ?thesis using True bU by (auto simp: ks'_def)
    next
      case False
      then have aU: "a \<in> U" using ab by auto
      show ?thesis
      proof (cases "b = p")
        case True
        have "nextClosure w \<notin> set (ks a)" using lt aU by auto
        moreover have "p \<in> U \<Longrightarrow> set (ks a) \<inter> set (ks p) = {}" using old_disj aU False by blast
        ultimately show ?thesis using True False by (auto simp: ks'_def)
      next
        case bp: False
        then have "b \<in> U" using ab by auto
        then show ?thesis using old_disj aU False bp ab by (auto simp: ks'_def)
      qed
    qed
  qed
  show "tracked c ?w (insert p U) ks'"
    unfolding tracked_def using fin a b by blast
  show "(\<Sum>q\<in>insert p U. length (ks' q)) = (\<Sum>q\<in>U. length (ks q)) + 1"
  proof (cases "p \<in> U")
    case True
    have "(\<Sum>q\<in>U. length (ks' q)) = length (ks' p) + (\<Sum>q\<in>U - {p}. length (ks' q))"
      using fin True by (simp add: sum.remove)
    moreover have "(\<Sum>q\<in>U. length (ks q)) = length (ks p) + (\<Sum>q\<in>U - {p}. length (ks q))"
      using fin True by (simp add: sum.remove)
    moreover have "(\<Sum>q\<in>U - {p}. length (ks' q)) = (\<Sum>q\<in>U - {p}. length (ks q))"
      by (rule sum.cong) (auto simp: ks'_def)
    ultimately show ?thesis using True by (simp add: insert_absorb ks'_def)
  next
    case False
    have "(\<Sum>q\<in>U. length (ks' q)) = (\<Sum>q\<in>U. length (ks q))"
      by (rule sum.cong) (use False in \<open>auto simp: ks'_def\<close>)
    then show ?thesis using fin False by (simp add: ks'_def)
  qed
qed

lemma register_all_Cons [simp]:
  "register_all c ((p, v) # pvs) w = register_all c pvs (childDidSuspend c p v w)"
  by (simp add: register_all_def)

lemma register_all_Nil [simp]: "register_all c [] w = w"
  by (simp add: register_all_def)

lemma register_all_tracked:
  assumes "tracked c w U ks"
    and "\<forall>p\<in>fst ` set pvs. p \<in> U \<or> (pstate (store w) p = Pending \<and> reactions (store w) p = [])"
  shows "\<exists>ks'. tracked c (register_all c pvs w) (U \<union> fst ` set pvs) ks' \<and>
           (\<Sum>q\<in>U \<union> fst ` set pvs. length (ks' q)) = (\<Sum>q\<in>U. length (ks q)) + length pvs"
  using assms
proof (induction pvs arbitrary: w U ks)
  case Nil
  then show ?case by auto
next
  case (Cons pv pvs)
  obtain p v where pv: "pv = (p, v)" by (cases pv)
  let ?w = "childDidSuspend c p v w"
  define ks1 where "ks1 = ks(p := (if p \<in> U then ks p else []) @ [nextClosure w])"
  have p: "p \<in> U \<or> (pstate (store w) p = Pending \<and> reactions (store w) p = [])"
    using Cons.prems(2) pv by simp
  have pend: "pstate (store w) p = Pending" using Cons.prems(1) p by (auto simp: tracked_def)
  have t1: "tracked c ?w (insert p U) ks1"
    and s1: "(\<Sum>q\<in>insert p U. length (ks1 q)) = (\<Sum>q\<in>U. length (ks q)) + 1"
    using tracked_step [OF Cons.prems(1) p ks1_def] by blast+
  have 2: "\<forall>q\<in>fst ` set pvs. q \<in> insert p U \<or>
             (pstate (store ?w) q = Pending \<and> reactions (store ?w) q = [])"
    using Cons.prems(2) pend by (auto simp: reactions_promise_then_pending)
  obtain ks' where t': "tracked c (register_all c pvs ?w) (insert p U \<union> fst ` set pvs) ks'"
    and s': "(\<Sum>q\<in>insert p U \<union> fst ` set pvs. length (ks' q)) =
               (\<Sum>q\<in>insert p U. length (ks1 q)) + length pvs"
    using Cons.IH [OF t1 2] by blast
  have eq: "U \<union> fst ` set (pv # pvs) = insert p U \<union> fst ` set pvs" using pv by auto
  show ?case
    unfolding eq using t' s' s1 pv by auto
qed

lemma register_all_boundary:
  assumes "\<forall>v\<in>snd ` set pvs. \<not> isHydrating v"
  shows "boundary (register_all c pvs w) c =
           (boundary w c)\<lparr>pendingCount := pendingCount (boundary w c) + int (length pvs),
              suspended := (pvs \<noteq> [] \<or> suspended (boundary w c)),
              setStateCalls := setStateCalls (boundary w c) @ replicate (length pvs) True\<rparr>"
  using assms
proof (induction pvs arbitrary: w)
  case Nil
  then show ?case by simp
next
  case (Cons pv pvs)
  obtain p v where pv: "pv = (p, v)" by (cases pv)
  have nh: "\<not> isHydrating v" using Cons.prems pv by simp
  have rest: "\<forall>v\<in>snd ` set pvs. \<not> isHydrating v" using Cons.prems by simp
  show ?case
    using Cons.IH [OF rest, of "childDidSuspend c p v w"] nh pv
    by (simp add: boundary_childDidSuspend)
qed

lemma register_all_jobs:
  assumes "\<forall>p\<in>fst ` set pvs. pstate (store w) p = Pending"
  shows "jobs (store (register_all c pvs w)) = jobs (store w)"
  using assms
proof (induction pvs arbitrary: w)
  case Nil
  then show ?case by simp
next
  case (Cons pv pvs)
  obtain p v where pv: "pv = (p, v)" by (cases pv)
  show ?case
    using Cons.IH [of "childDidSuspend c p v w"] Cons.prems pv
    by (simp add: jobs_promise_then_pending)
qed

subsection \<open>Suspension lasts until every signal of the pass has settled\<close>

text \<open>
  Claim C1.  Take a boundary \<open>c\<close> on which no signal is outstanding (its counter is 0,
  the job queue is empty), and a pass in which \<open>N \<ge> 1\<close> pending signals \<open>pvs\<close> are
  registered by \<^verbatim>\<open>__c\<close>, none of them from a hydrating node (the same promise may be
  registered more than once).  Then \<open>suspended\<close> is true after the first registration
  and after every later one.  Let the signals settle in any order \<open>ss\<close>, each fulfilled or
  rejected: as long as one of them has not settled, \<open>suspended\<close> is true, the counter is
  positive and no request to clear \<open>suspended\<close> has been made; once all have settled,
  \<open>suspended\<close> is false, the counter is 0, and exactly one request
  \<^verbatim>\<open>setState({suspended: false})\<close> has been made, after the \<open>N\<close> requests of the
  registrations.
\<close>

theorem resume_once_after_all_settled:
  assumes "pendingCount (boundary w c) = 0"
    and "jobs (store w) = []"
    and "pvs \<noteq> []"
    and "\<forall>(p, v)\<in>set pvs. \<not> isHydrating v \<and> pstate (store w) p = Pending \<and>
           reactions (store w) p = []"
    and "distinct (map fst ss)"
    and "set (map fst ss) = set (map fst pvs)"
  shows "(\<forall>n. 0 < n \<and> n \<le> length pvs \<longrightarrow>
            suspended (boundary (register_all c (take n pvs) w) c)) \<and>
         (\<forall>n. n < length ss \<longrightarrow>
            suspended (boundary (settle_all (take n ss) (register_all c pvs w)) c) \<and>
            0 < pendingCount (boundary (settle_all (take n ss) (register_all c pvs w)) c) \<and>
            setStateCalls (boundary (settle_all (take n ss) (register_all c pvs w)) c) =
              setStateCalls (boundary w c) @ replicate (length pvs) True) \<and>
         \<not> suspended (boundary (settle_all ss (register_all c pvs w)) c) \<and>
         pendingCount (boundary (settle_all ss (register_all c pvs w)) c) = 0 \<and>
         setStateCalls (boundary (settle_all ss (register_all c pvs w)) c) =
           setStateCalls (boundary w c) @ replicate (length pvs) True @ [False]"
proof -
  let ?w = "register_all c pvs w"
  have nh: "\<forall>v\<in>snd ` set pvs. \<not> isHydrating v" using assms(4) by auto
  have pend: "\<forall>p\<in>fst ` set pvs. pstate (store w) p = Pending" using assms(4) by auto
  have first: "\<forall>n. 0 < n \<and> n \<le> length pvs \<longrightarrow>
            suspended (boundary (register_all c (take n pvs) w) c)"
  proof (intro allI impI)
    fix n assume n: "0 < n \<and> n \<le> length pvs"
    have "\<forall>v\<in>snd ` set (take n pvs). \<not> isHydrating v"
      using nh by (auto dest: in_set_takeD)
    from register_all_boundary [OF this, of c w] n
    show "suspended (boundary (register_all c (take n pvs) w) c)" by auto
  qed
  have bw: "boundary ?w c =
           (boundary w c)\<lparr>pendingCount := int (length pvs), suspended := True,
              setStateCalls := setStateCalls (boundary w c) @ replicate (length pvs) True\<rparr>"
    using register_all_boundary [OF nh, of c w] assms(1,3) by simp
  have jw: "jobs (store ?w) = []"
    using register_all_jobs [OF pend, of c] assms(2) by simp
  have t0: "tracked c w {} (\<lambda>p. [])" by (simp add: tracked_def)
  have "\<forall>p\<in>fst ` set pvs. p \<in> {} \<or> (pstate (store w) p = Pending \<and> reactions (store w) p = [])"
    using assms(4) by auto
  from register_all_tracked [OF t0 this, of ]
  obtain ks where t: "tracked c ?w (fst ` set pvs) ks"
    and sm: "(\<Sum>q\<in>fst ` set pvs. length (ks q)) = length pvs"
    by auto
  have dom: "fst ` set ss = fst ` set pvs" using assms(6) by simp
  have 3: "\<forall>p\<in>fst ` set ss. pstate (store ?w) p = Pending \<and>
           reactions (store ?w) p = map (rx c) (ks p) \<and> ks p \<noteq> [] \<and> distinct (ks p) \<and>
           (\<forall>k\<in>set (ks p). \<not> resolved ?w k)"
    using t unfolding tracked_def dom by blast
  have 4: "\<forall>p\<in>fst ` set ss. \<forall>q\<in>fst ` set ss. p \<noteq> q \<longrightarrow> set (ks p) \<inter> set (ks q) = {}"
    using t unfolding tracked_def dom by blast
  have "sum_list (map (\<lambda>x. length (ks (fst x))) ss) = sum_list (map (\<lambda>p. length (ks p)) (map fst ss))"
    by (simp add: comp_def)
  also have "\<dots> = (\<Sum>q\<in>set (map fst ss). length (ks q))"
    using assms(5) by (rule sum_list_distinct_conv_sum_set)
  also have "\<dots> = length pvs" using sm dom by simp
  finally have sl: "sum_list (map (\<lambda>x. length (ks (fst x))) ss) = length pvs" .
  have 5: "pendingCount (boundary ?w c) = int (sum_list (map (\<lambda>x. length (ks (fst x))) ss))"
    by (simp add: bw sl)
  have ssne: "ss \<noteq> []" using assms(3,6) by auto
  have step: "boundary (settle_all (take n ss) ?w) c =
           (if n = length ss \<and> ss \<noteq> []
            then (boundary ?w c)\<lparr>pendingCount := 0, suspended := False,
                   setStateCalls := setStateCalls (boundary ?w c) @ [False]\<rparr>
            else (boundary ?w c)\<lparr>pendingCount :=
                   int (sum_list (map (\<lambda>x. length (ks (fst x))) (drop n ss)))\<rparr>)"
    if "n \<le> length ss" for n
    using settle_all_boundary [OF assms(5) jw 3 4 5 that] .
  have mid: "\<forall>n. n < length ss \<longrightarrow>
            suspended (boundary (settle_all (take n ss) ?w) c) \<and>
            0 < pendingCount (boundary (settle_all (take n ss) ?w) c) \<and>
            setStateCalls (boundary (settle_all (take n ss) ?w) c) =
              setStateCalls (boundary w c) @ replicate (length pvs) True"
  proof (intro allI impI)
    fix n assume n: "n < length ss"
    then obtain x xs where d: "drop n ss = x # xs" by (cases "drop n ss") auto
    then have "x \<in> set ss" by (metis in_set_dropD list.set_intros(1))
    then have "ks (fst x) \<noteq> []" using 3 by auto
    then have pos: "0 < sum_list (map (\<lambda>x. length (ks (fst x))) (drop n ss))"
      by (simp add: d)
    show "suspended (boundary (settle_all (take n ss) ?w) c) \<and>
            0 < pendingCount (boundary (settle_all (take n ss) ?w) c) \<and>
            setStateCalls (boundary (settle_all (take n ss) ?w) c) =
              setStateCalls (boundary w c) @ replicate (length pvs) True"
      using step [of n] n pos by (simp add: bw)
  qed
  have last: "boundary (settle_all ss ?w) c =
      (boundary ?w c)\<lparr>pendingCount := 0, suspended := False,
                   setStateCalls := setStateCalls (boundary ?w c) @ [False]\<rparr>"
    using step [of "length ss"] ssne by simp
  show ?thesis
    using first mid by (simp add: last bw)
qed

theorem resume_once_after_all_settled_witness:
  "pendingCount (boundary (initial_world loading_props) 0) = 0 \<and>
   suspended (boundary (register_all 0 [(5, plain_vnode)]
       (initial_world loading_props)) 0) \<and>
   suspended (boundary (settle_all [(7, Reject JNull)]
     (register_all 0 [(5, plain_vnode), (7, plain_vnode), (5, plain_vnode)]
       (initial_world loading_props))) 0) \<and>
   setStateCalls (boundary (settle_all [(7, Reject JNull), (5, Fulfill JNull)]
     (register_all 0 [(5, plain_vnode), (7, plain_vnode), (5, plain_vnode)]
       (initial_world loading_props))) 0) =
     [True, True, True, False]"
proof -
  let ?w = "initial_world loading_props"
  let ?pvs = "[(5, plain_vnode), (7, plain_vnode), (5::nat, plain_vnode)]"
  let ?ss = "[(7, Reject JNull), (5::nat, Fulfill JNull)]"
  have 1: "pendingCount (boundary ?w 0) = 0"
    by (simp add: initial_world_def Suspense_constructor_def)
  have 2: "jobs (store ?w) = []" by (simp add: initial_world_def empty_store_def)
  have 3: "?pvs \<noteq> []" by simp
  have 4: "\<forall>(p, v)\<in>set ?pvs. \<not> isHydrating v \<and> pstate (store ?w) p = Pending \<and>
           reactions (store ?w) p = []"
    by (simp add: initial_world_def empty_store_def plain_vnode_def isHydrating_def)
  have 5: "distinct (map fst ?ss)" by simp
  have 6: "set (map fst ?ss) = set (map fst ?pvs)" by auto
  note th = resume_once_after_all_settled [OF 1 2 3 4 5 6]
  have a0: "0 < (1::nat) \<and> 1 \<le> length ?pvs" by simp
  have a: "suspended (boundary (register_all 0 (take 1 ?pvs) ?w) 0)"
    using th [THEN conjunct1, rule_format, OF a0] .
  have b0: "1 < length ?ss" by simp
  have b: "suspended (boundary (settle_all (take 1 ?ss) (register_all 0 ?pvs ?w)) 0)"
    using th [THEN conjunct2, THEN conjunct1, rule_format, OF b0] by (rule conjunct1)
  have c: "setStateCalls (boundary (settle_all ?ss (register_all 0 ?pvs ?w)) 0) =
             setStateCalls (boundary ?w 0) @ replicate (length ?pvs) True @ [False]"
    using th [THEN conjunct2, THEN conjunct2] by (elim conjE)
  show ?thesis
    using 1 a b c by (simp add: initial_world_def Suspense_constructor_def)
qed

subsection \<open>The counter is never negative\<close>

lemma counter_ok_store_upd [simp]: "counter_ok (w\<lparr>store := s\<rparr>) = counter_ok w"
  by (simp add: counter_ok_def)

lemma counter_ok_childDidSuspend: "counter_ok w \<Longrightarrow> counter_ok (childDidSuspend c p v w)"
  by (auto simp: counter_ok_def boundary_childDidSuspend)

lemma counter_ok_onResolved: "counter_ok w \<Longrightarrow> counter_ok (onResolved c k w)"
  by (auto simp: counter_ok_def boundary_onResolved)

lemma counter_ok_run_reaction: "counter_ok w \<Longrightarrow> counter_ok (run_reaction r out w)"
  by (auto simp: run_reaction_def counter_ok_onResolved
      split: option.splits outcome.splits callback.splits)

lemma counter_ok_run_jobs: "counter_ok w \<Longrightarrow> counter_ok (run_jobs n w)"
proof (induction n arbitrary: w)
  case 0
  then show ?case by simp
next
  case (Suc n)
  show ?case
  proof (cases "jobs (store w)")
    case Nil
    then show ?thesis using Suc.prems by simp
  next
    case (Cons j js)
    obtain r out where j: "j = (r, out)" by (cases j)
    have "counter_ok (run_reaction r out (w\<lparr>store := (store w)\<lparr>jobs := js\<rparr>\<rparr>))"
      using Suc.prems by (simp add: counter_ok_run_reaction)
    then show ?thesis using Suc.IH Cons j by simp
  qed
qed

lemma counter_ok_step: "counter_ok w \<Longrightarrow> counter_ok (step ev w)"
  by (cases ev)
     (simp_all add: counter_ok_childDidSuspend counter_ok_run_jobs settle_signal_def Let_def)

lemma counter_ok_lifetime: "counter_ok w \<Longrightarrow> counter_ok (lifetime evs w)"
  unfolding lifetime_def
  by (induction evs arbitrary: w) (simp_all add: counter_ok_step)

lemma counter_ok_initial: "counter_ok (initial_world ps)"
  by (simp add: counter_ok_def initial_world_def Suspense_constructor_def)

text \<open>
  Claim C2.  A boundary that has just been constructed is not suspended and its counter
  is 0.  A call of \<^verbatim>\<open>__c\<close> and a run of a continuation \<^verbatim>\<open>onResolved\<close>, on any
  boundary, keep the counter of every boundary at 0 or above; \<^verbatim>\<open>__c\<close> never clears
  \<open>suspended\<close>, and a continuation that clears it leaves the counter at 0.  Over a whole
  life of registrations, settlements and queued jobs, with suspensions after resumes, the
  counter of every boundary stays at 0 or above and is positive whenever the boundary is
  suspended.
\<close>

theorem counter_invariant:
  "suspended (Suspense_constructor ps) = False \<and>
   pendingCount (Suspense_constructor ps) = 0 \<and>
   (0 \<le> pendingCount (boundary w b) \<longrightarrow>
      0 \<le> pendingCount (boundary (childDidSuspend c p v w) b) \<and>
      (suspended (boundary w b) \<longrightarrow> suspended (boundary (childDidSuspend c p v w) b)) \<and>
      0 \<le> pendingCount (boundary (onResolved c k w) b) \<and>
      (suspended (boundary w b) \<and> \<not> suspended (boundary (onResolved c k w) b) \<longrightarrow>
         pendingCount (boundary (onResolved c k w) b) = 0)) \<and>
   (\<forall>evs. 0 \<le> pendingCount (boundary (lifetime evs (initial_world ps)) b) \<and>
      (suspended (boundary (lifetime evs (initial_world ps)) b) \<longrightarrow>
         0 < pendingCount (boundary (lifetime evs (initial_world ps)) b)))"
proof -
  have life: "counter_ok (lifetime evs (initial_world ps))" for evs
    by (simp add: counter_ok_lifetime counter_ok_initial)
  have a: "suspended (Suspense_constructor ps) = False \<and>
           pendingCount (Suspense_constructor ps) = 0"
    by (simp add: Suspense_constructor_def)
  have b: "0 \<le> pendingCount (boundary w b) \<longrightarrow>
      0 \<le> pendingCount (boundary (childDidSuspend c p v w) b) \<and>
      (suspended (boundary w b) \<longrightarrow> suspended (boundary (childDidSuspend c p v w) b)) \<and>
      0 \<le> pendingCount (boundary (onResolved c k w) b) \<and>
      (suspended (boundary w b) \<and> \<not> suspended (boundary (onResolved c k w) b) \<longrightarrow>
         pendingCount (boundary (onResolved c k w) b) = 0)"
    by (auto simp: boundary_childDidSuspend boundary_onResolved)
  show ?thesis
    using a b life unfolding counter_ok_def by blast
qed

theorem counter_invariant_witness:
  "0 \<le> pendingCount (boundary (childDidSuspend 0 5 plain_vnode (initial_world loading_props)) 0) \<and>
   suspended (boundary (childDidSuspend 0 5 plain_vnode (initial_world loading_props)) 0) \<and>
   suspended (boundary (childDidSuspend 0 6 plain_vnode
      (childDidSuspend 0 5 plain_vnode (initial_world loading_props))) 0) \<and>
   \<not> suspended (boundary (onResolved 0 0 (childDidSuspend 0 5 plain_vnode (initial_world loading_props))) 0) \<and>
   pendingCount (boundary (onResolved 0 0 (childDidSuspend 0 5 plain_vnode (initial_world loading_props))) 0) = 0 \<and>
   suspended (boundary (lifetime [Suspend 0 5 plain_vnode, Settle 5 (Reject JNull),
      Suspend 0 6 plain_vnode] (initial_world loading_props)) 0) \<and>
   0 < pendingCount (boundary (lifetime [Suspend 0 5 plain_vnode, Settle 5 (Reject JNull),
      Suspend 0 6 plain_vnode] (initial_world loading_props)) 0)"
proof -
  let ?w = "childDidSuspend 0 5 plain_vnode (initial_world loading_props)"
  let ?evs = "[Suspend 0 5 plain_vnode, Settle 5 (Reject JNull), Suspend 0 6 plain_vnode]"
  have nh: "\<not> isHydrating plain_vnode" by (simp add: isHydrating_def plain_vnode_def)
  have c: "pendingCount (boundary ?w 0) = 1" and s: "suspended (boundary ?w 0)"
    and r: "\<not> resolved ?w 0"
    using nh by (simp_all add: boundary_childDidSuspend initial_world_def Suspense_constructor_def)
  have cleared: "\<not> suspended (boundary (onResolved 0 0 ?w) 0)"
    using c r by (simp add: boundary_onResolved)
  have life: "suspended (boundary (lifetime ?evs (initial_world loading_props)) 0)"
    using nh by (simp add: lifetime_def boundary_childDidSuspend)
  note th = counter_invariant [of loading_props ?w 0 0 6 plain_vnode 0]
  have 1: "0 \<le> pendingCount (boundary ?w 0)" using c by simp
  from th 1 s cleared life show ?thesis by blast
qed

subsection \<open>Hydration\<close>

lemma hb1: "(w AND push_bit 5 1 :: 32 word) \<noteq> 0 \<longleftrightarrow> bit w 5"
  using and_exp_eq_0_iff_not_bit [of w 5] by (simp add: push_bit_eq_mult)

lemma hydrate_bit: "(word_of_int u AND MODE_HYDRATE) \<noteq> 0 \<longleftrightarrow> bit u 5"
  unfolding MODE_HYDRATE_def hb1 by (simp add: bit_word_of_int_iff)

lemma isHydrating_iff:
  "isHydrating v \<longleftrightarrow> (\<exists>u. v_flags v = Some u \<and> bit u 5) \<or> v_hydrating v = Some True"
proof -
  have "bit u 5 \<Longrightarrow> u \<noteq> 0" for u :: int by auto
  then show ?thesis
    by (auto simp: isHydrating_def hydrate_bit split: option.splits)
qed

lemma not_suspended_run_reaction:
  "\<not> suspended (boundary w c) \<Longrightarrow> \<not> suspended (boundary (run_reaction r out w) c)"
  by (auto simp: run_reaction_def boundary_onResolved
      split: option.splits outcome.splits callback.splits)

lemma not_suspended_run_jobs:
  "\<not> suspended (boundary w c) \<Longrightarrow> \<not> suspended (boundary (run_jobs n w) c)"
proof (induction n arbitrary: w)
  case 0
  then show ?case by simp
next
  case (Suc n)
  show ?case
  proof (cases "jobs (store w)")
    case Nil
    then show ?thesis using Suc.prems by simp
  next
    case (Cons j js)
    obtain r out where j: "j = (r, out)" by (cases j)
    have "\<not> suspended (boundary (run_reaction r out (w\<lparr>store := (store w)\<lparr>jobs := js\<rparr>\<rparr>)) c)"
      using Suc.prems by (simp add: not_suspended_run_reaction)
    then show ?thesis using Suc.IH Cons j by simp
  qed
qed

text \<open>
  Claim C3.  When the signalling node is hydrating (its flags hold the hydrate bit, or
  its hydrating marker is true) and the boundary is not suspended, \<^verbatim>\<open>__c\<close> leaves
  \<open>suspended\<close> false and makes no \<^verbatim>\<open>setState\<close> request, while the counter grows by
  one; after the signal has settled, fulfilled or rejected, \<open>suspended\<close> is false.  If
  the signal was the only one outstanding, its settlement brings the counter back to 0
  and requests the re-render with \<open>suspended\<close> false.
\<close>

theorem hydration_keeps_content:
  assumes "(\<exists>u. v_flags v = Some u \<and> bit u 5) \<or> v_hydrating v = Some True"
    and "\<not> suspended (boundary w c)"
  shows "\<not> suspended (boundary (childDidSuspend c p v w) c) \<and>
         setStateCalls (boundary (childDidSuspend c p v w) c) = setStateCalls (boundary w c) \<and>
         pendingCount (boundary (childDidSuspend c p v w) c) = pendingCount (boundary w c) + 1 \<and>
         \<not> suspended (boundary (settle_signal p out (childDidSuspend c p v w)) c) \<and>
         (pendingCount (boundary w c) = 0 \<and> jobs (store w) = [] \<and>
          pstate (store w) p = Pending \<and> reactions (store w) p = [] \<longrightarrow>
            pendingCount (boundary (settle_signal p out (childDidSuspend c p v w)) c) = 0 \<and>
            setStateCalls (boundary (settle_signal p out (childDidSuspend c p v w)) c) =
              setStateCalls (boundary w c) @ [False])"
proof -
  let ?w = "childDidSuspend c p v w"
  have h: "isHydrating v" using assms(1) by (simp add: isHydrating_iff)
  have b: "boundary ?w c = (boundary w c)\<lparr>pendingCount := pendingCount (boundary w c) + 1\<rparr>"
    using h by (simp add: boundary_childDidSuspend)
  have ns: "\<not> suspended (boundary ?w c)" using assms(2) by (simp add: b)
  have after: "\<not> suspended (boundary (settle_signal p out ?w) c)"
    unfolding settle_signal_def Let_def
    by (rule not_suspended_run_jobs) (simp add: ns)
  have alone: "pendingCount (boundary (settle_signal p out ?w) c) = 0 \<and>
            setStateCalls (boundary (settle_signal p out ?w) c) = setStateCalls (boundary w c) @ [False]"
    if a: "pendingCount (boundary w c) = 0" "jobs (store w) = []"
      "pstate (store w) p = Pending" "reactions (store w) p = []"
  proof -
    have j: "jobs (store ?w) = []" using a by (simp add: jobs_promise_then_pending)
    have pd: "pstate (store ?w) p = Pending" using a by simp
    have rs: "reactions (store ?w) p = map (rx c) [nextClosure w]"
      using a by (simp add: reactions_promise_then_pending rx_def)
    have "boundary (settle_signal p out ?w) c = boundary (onResolved c (nextClosure w) ?w) c"
      using settle_signal_parts [OF j pd, of out] rs by simp
    then show ?thesis using a by (simp add: boundary_onResolved b)
  qed
  show ?thesis using ns after alone by (simp add: b)
qed

theorem hydration_keeps_content_witness:
  "isHydrating (VNode None None None None (Some 32) None) \<and>
   isHydrating (VNode None None None None None (Some True)) \<and>
   \<not> suspended (boundary (initial_world loading_props) 0) \<and>
   \<not> suspended (boundary (childDidSuspend 0 5 (VNode None None None None (Some 32) None)
        (initial_world loading_props)) 0) \<and>
   pendingCount (boundary (childDidSuspend 0 5 (VNode None None None None (Some 32) None)
        (initial_world loading_props)) 0) = 1 \<and>
   \<not> suspended (boundary (settle_signal 5 (Fulfill JNull)
        (childDidSuspend 0 5 (VNode None None None None (Some 32) None) (initial_world loading_props))) 0) \<and>
   setStateCalls (boundary (settle_signal 5 (Fulfill JNull)
        (childDidSuspend 0 5 (VNode None None None None (Some 32) None) (initial_world loading_props))) 0) =
     [False]"
proof -
  let ?v = "VNode None None None None (Some 32) None"
  have 1: "(\<exists>u. v_flags ?v = Some u \<and> bit u 5) \<or> v_hydrating ?v = Some True"
    by (simp add: bit_numeral_iff bit_iff_odd)
  have 2: "\<not> suspended (boundary (initial_world loading_props) 0)"
    by (simp add: initial_world_def Suspense_constructor_def)
  have 3: "pendingCount (boundary (initial_world loading_props) 0) = 0 \<and> jobs (store (initial_world loading_props)) = [] \<and>
          pstate (store (initial_world loading_props)) 5 = Pending \<and> reactions (store (initial_world loading_props)) 5 = []"
    by (simp add: initial_world_def Suspense_constructor_def empty_store_def)
  have 4: "setStateCalls (boundary (initial_world loading_props) 0) = []"
    by (simp add: initial_world_def Suspense_constructor_def)
  have 5: "isHydrating (VNode None None None None None (Some True))"
    by (simp add: isHydrating_def)
  from hydration_keeps_content [OF 1 2, of 5 "Fulfill JNull"] 1 2 3 4 5
  show ?thesis by (simp add: isHydrating_iff)
qed

subsection \<open>Fulfilment and rejection\<close>

lemma run_reaction_symmetric:
  "onFulfilled r = onRejected r \<Longrightarrow> run_reaction r (Fulfill x) w = run_reaction r (Reject e) w"
  by (simp add: run_reaction_def)

lemma fold_run_reaction_symmetric:
  "\<forall>r\<in>set rs. onFulfilled r = onRejected r \<Longrightarrow>
     fold (\<lambda>r. run_reaction r (Fulfill x)) rs w = fold (\<lambda>r. run_reaction r (Reject e)) rs w"
  by (induction rs arbitrary: w) (auto simp: run_reaction_symmetric [of _ x _ e])

lemma fold_pair_map:
  "fold (\<lambda>(r, x). run_reaction r x) (map (\<lambda>r. (r, out)) rs) w = fold (\<lambda>r. run_reaction r out) rs w"
  by (induction rs arbitrary: w) simp_all

lemma settle_signal_core:
  "boundary (settle_signal p out w) =
     boundary (fold (\<lambda>(r, x). run_reaction r x) (jobs (settle p out (store w))) w)"
  "resolved (settle_signal p out w) =
     resolved (fold (\<lambda>(r, x). run_reaction r x) (jobs (settle p out (store w))) w)"
  by (simp_all add: settle_signal_def Let_def run_jobs_fold fold_run_reaction_store_upd)

text \<open>
  Claim C4.  \<^verbatim>\<open>__c\<close> registers on the signal one reaction whose success handler and
  failure handler are the same closure \<^verbatim>\<open>onResolved\<close> (queued at once when the signal
  has already settled).  Run for a fulfilment or for a rejection, that reaction does the
  same thing: the first time, the counter drops by one, not below 0, and \<open>suspended\<close>
  is cleared when it reaches 0.  A signal whose other reactions are symmetric as well
  leaves every boundary in the same state whether it is fulfilled or rejected.
\<close>

theorem both_continuations_identical:
  "(pstate (store w) p = Pending \<longrightarrow>
      reactions (store (childDidSuspend c p v w)) p =
        reactions (store w) p @
          [\<lparr>onFulfilled = Some (OnResolved c (nextClosure w)),
            onRejected = Some (OnResolved c (nextClosure w)), derived = None\<rparr>]) \<and>
   (pstate (store w) p = Settled out \<longrightarrow>
      jobs (store (childDidSuspend c p v w)) =
        jobs (store w) @
          [(\<lparr>onFulfilled = Some (OnResolved c (nextClosure w)),
             onRejected = Some (OnResolved c (nextClosure w)), derived = None\<rparr>, out)]) \<and>
   run_reaction \<lparr>onFulfilled = Some (OnResolved c k), onRejected = Some (OnResolved c k),
                  derived = None\<rparr> (Fulfill x) u = onResolved c k u \<and>
   run_reaction \<lparr>onFulfilled = Some (OnResolved c k), onRejected = Some (OnResolved c k),
                  derived = None\<rparr> (Reject e) u = onResolved c k u \<and>
   (\<not> resolved u k \<longrightarrow>
      pendingCount (boundary (onResolved c k u) c) = max 0 (pendingCount (boundary u c) - 1) \<and>
      suspended (boundary (onResolved c k u) c) =
        (suspended (boundary u c) \<and> 1 < pendingCount (boundary u c))) \<and>
   ((\<forall>r\<in>set (reactions (store w) p). onFulfilled r = onRejected r) \<longrightarrow>
      boundary (settle_signal p (Fulfill x) (childDidSuspend c p v w)) =
        boundary (settle_signal p (Reject e) (childDidSuspend c p v w)) \<and>
      resolved (settle_signal p (Fulfill x) (childDidSuspend c p v w)) =
        resolved (settle_signal p (Reject e) (childDidSuspend c p v w)))"
proof -
  let ?w = "childDidSuspend c p v w"
  let ?r = "\<lparr>onFulfilled = Some (OnResolved c (nextClosure w)),
            onRejected = Some (OnResolved c (nextClosure w)), derived = None\<rparr>"
  have a: "pstate (store w) p = Pending \<longrightarrow> reactions (store ?w) p = reactions (store w) p @ [?r]"
    by (simp add: reactions_promise_then_pending)
  have b: "pstate (store w) p = Settled out \<longrightarrow> jobs (store ?w) = jobs (store w) @ [(?r, out)]"
    by (simp add: promise_then_def)
  have c: "run_reaction \<lparr>onFulfilled = Some (OnResolved c k), onRejected = Some (OnResolved c k),
                  derived = None\<rparr> out' u = onResolved c k u" for out'
    by (simp add: run_reaction_def split: outcome.splits)
  have d: "\<not> resolved u k \<longrightarrow>
      pendingCount (boundary (onResolved c k u) c) = max 0 (pendingCount (boundary u c) - 1) \<and>
      suspended (boundary (onResolved c k u) c) =
        (suspended (boundary u c) \<and> 1 < pendingCount (boundary u c))"
    by (auto simp: boundary_onResolved)
  have e: "boundary (settle_signal p (Fulfill x) ?w) = boundary (settle_signal p (Reject e) ?w) \<and>
      resolved (settle_signal p (Fulfill x) ?w) = resolved (settle_signal p (Reject e) ?w)"
    if sym: "\<forall>r\<in>set (reactions (store w) p). onFulfilled r = onRejected r"
  proof (cases "pstate (store w) p")
    case Pending
    have rs: "reactions (store ?w) p = reactions (store w) p @ [?r]" using a Pending by simp
    have sym': "\<forall>r\<in>set (reactions (store ?w) p). onFulfilled r = onRejected r"
      unfolding rs using sym by simp
    have pd: "pstate (store ?w) p = Pending" using Pending by simp
    have j: "jobs (settle p out' (store ?w)) = jobs (store ?w) @ map (\<lambda>r. (r, out')) (reactions (store ?w) p)"
      for out'
      using pd by (simp add: settle_def)
    have "fold (\<lambda>(r, x). run_reaction r x) (jobs (settle p (Fulfill x) (store ?w))) ?w =
          fold (\<lambda>(r, x). run_reaction r x) (jobs (settle p (Reject e) (store ?w))) ?w"
      unfolding j fold_append comp_def fold_pair_map
      by (rule fold_run_reaction_symmetric [OF sym'])
    then show ?thesis
      unfolding settle_signal_core by simp
  next
    case (Settled old)
    then have "settle p out' (store ?w) = store ?w" for out'
      by (simp add: settle_def)
    then show ?thesis by (simp add: settle_signal_def)
  qed
  show ?thesis using a b c d e by blast
qed

theorem both_continuations_identical_witness:
  "pstate (store (initial_world loading_props)) 5 = Pending \<and>
   reactions (store (childDidSuspend 0 5 plain_vnode (initial_world loading_props))) 5 =
     [\<lparr>onFulfilled = Some (OnResolved 0 0), onRejected = Some (OnResolved 0 0), derived = None\<rparr>] \<and>
   pstate (store (settle_signal 5 (Reject JNull) (initial_world loading_props))) 5 = Settled (Reject JNull) \<and>
   jobs (store (childDidSuspend 0 5 plain_vnode (settle_signal 5 (Reject JNull) (initial_world loading_props)))) =
     [(\<lparr>onFulfilled = Some (OnResolved 0 0), onRejected = Some (OnResolved 0 0), derived = None\<rparr>,
       Reject JNull)] \<and>
   \<not> resolved (childDidSuspend 0 5 plain_vnode (initial_world loading_props)) 0 \<and>
   pendingCount (boundary (onResolved 0 0 (childDidSuspend 0 5 plain_vnode (initial_world loading_props))) 0) = 0 \<and>
   \<not> suspended (boundary (onResolved 0 0 (childDidSuspend 0 5 plain_vnode (initial_world loading_props))) 0) \<and>
   boundary (settle_signal 5 (Fulfill (JStr ''ok'')) (childDidSuspend 0 5 plain_vnode (initial_world loading_props))) =
     boundary (settle_signal 5 (Reject (JStr ''failed'')) (childDidSuspend 0 5 plain_vnode (initial_world loading_props)))"
proof -
  let ?w = "initial_world loading_props"
  let ?s = "settle_signal 5 (Reject JNull) ?w"
  let ?u = "childDidSuspend 0 5 plain_vnode ?w"
  have nh: "\<not> isHydrating plain_vnode" by (simp add: isHydrating_def plain_vnode_def)
  have 1: "pstate (store ?w) 5 = Pending" and 2: "reactions (store ?w) 5 = []"
    and 3: "nextClosure ?w = 0" and 4: "jobs (store ?w) = []"
    by (simp_all add: initial_world_def empty_store_def)
  have s: "?s = ?w\<lparr>store := (store ?w)\<lparr>pstate := (pstate (store ?w))(5 := Settled (Reject JNull)),
                                    reactions := (reactions (store ?w))(5 := [])\<rparr>\<rparr>"
    using settle_signal_parts [OF 4 1, of "Reject JNull"] by (simp add: 2)
  have 5: "pstate (store ?s) 5 = Settled (Reject JNull)" and 6: "jobs (store ?s) = []"
    and 7: "nextClosure ?s = 0"
    by (simp_all add: s 3 4)
  have 8: "\<not> resolved ?u 0" by (simp add: 3)
  have 9: "pendingCount (boundary ?u 0) = 1" and 10: "suspended (boundary ?u 0)"
    using nh by (simp_all add: boundary_childDidSuspend initial_world_def Suspense_constructor_def)
  have 11: "\<forall>r\<in>set (reactions (store ?w) 5). onFulfilled r = onRejected r" by (simp add: 2)
  note a = both_continuations_identical [of ?w 5 0 plain_vnode "Reject JNull" 0 "JStr ''ok''" ?u "JStr ''failed''"]
  note b = both_continuations_identical [of ?s 5 0 plain_vnode "Reject JNull" 0 "JStr ''ok''" ?u "JStr ''failed''"]
  have r1: "reactions (store ?u) 5 =
     [\<lparr>onFulfilled = Some (OnResolved 0 0), onRejected = Some (OnResolved 0 0), derived = None\<rparr>]"
    using a 1 2 3 by simp
  have r2: "jobs (store (childDidSuspend 0 5 plain_vnode ?s)) =
     [(\<lparr>onFulfilled = Some (OnResolved 0 0), onRejected = Some (OnResolved 0 0), derived = None\<rparr>,
       Reject JNull)]"
    using b 5 6 7 by simp
  have r3: "pendingCount (boundary (onResolved 0 0 ?u) 0) = 0 \<and>
            \<not> suspended (boundary (onResolved 0 0 ?u) 0)"
    using a 8 9 10 by simp
  have r4: "boundary (settle_signal 5 (Fulfill (JStr ''ok'')) ?u) =
            boundary (settle_signal 5 (Reject (JStr ''failed'')) ?u)"
    using a 11 by blast
  show ?thesis using 1 r1 5 r2 8 r3 r4 by blast
qed

subsection \<open>The hook\<close>



lemma count_suspension_fields [simp]:
  "forwarded (count_suspension c v w) = forwarded w"
  "store (count_suspension c v w) = store w"
  "oldCatchError (count_suspension c v w) = oldCatchError w"
  by (simp_all add: count_suspension_def Let_def)





lemma isHydrating_preserve_dom [simp]: "isHydrating (preserve_dom nv ov) = isHydrating nv"
  by (simp add: preserve_dom_def isHydrating_def)




subsection \<open>The output of render\<close>

text \<open>
  Claim C6.  When \<open>suspended\<close> is true, \<^verbatim>\<open>render\<close> returns the fallback wrapped in a
  \<^verbatim>\<open>Fragment\<close>, and \<^verbatim>\<open>null\<close> when the fallback is \<^verbatim>\<open>null\<close> or \<^verbatim>\<open>undefined\<close>; when
  \<open>suspended\<close> is false it returns the children wrapped in a \<^verbatim>\<open>Fragment\<close>, which
  holds nothing to draw when the children are absent.
\<close>

theorem render_output:
  "(suspended this \<and> \<not> nullish (fallback (props this)) \<longrightarrow>
      render this = Some (Element Fragment JNull [fallback (props this)])) \<and>
   (suspended this \<and> nullish (fallback (props this)) \<longrightarrow> render this = None) \<and>
   (\<not> suspended this \<longrightarrow>
      render this = Some (Element Fragment JNull [children (props this)])) \<and>
   (\<not> suspended this \<and> nullish (children (props this)) \<longrightarrow> contents (render this) = [])"
  by (simp add: render_def createElement_def contents_def)

theorem render_output_witness:
  "render \<lparr>props = \<lparr>fallback = JStr ''Loading'', children = JStr ''page''\<rparr>,
           suspended = True, pendingCount = 1, setStateCalls = [True]\<rparr> =
     Some (Element Fragment JNull [JStr ''Loading'']) \<and>
   render \<lparr>props = \<lparr>fallback = JUndefined, children = JStr ''page''\<rparr>,
           suspended = True, pendingCount = 1, setStateCalls = [True]\<rparr> = None \<and>
   render (Suspense_constructor \<lparr>fallback = JStr ''Loading'', children = JStr ''page''\<rparr>) =
     Some (Element Fragment JNull [JStr ''page'']) \<and>
   contents (render (Suspense_constructor \<lparr>fallback = JStr ''Loading'', children = JUndefined\<rparr>)) = []"
  using
    render_output [of "\<lparr>props = \<lparr>fallback = JStr ''Loading'', children = JStr ''page''\<rparr>,
           suspended = True, pendingCount = 1, setStateCalls = [True]\<rparr>"]
    render_output [of "\<lparr>props = \<lparr>fallback = JUndefined, children = JStr ''page''\<rparr>,
           suspended = True, pendingCount = 1, setStateCalls = [True]\<rparr>"]
    render_output [of "Suspense_constructor \<lparr>fallback = JStr ''Loading'', children = JStr ''page''\<rparr>"]
    render_output [of "Suspense_constructor \<lparr>fallback = JStr ''Loading'', children = JUndefined\<rparr>"]
  by (simp add: Suspense_constructor_def contents_def)

section \<open>Properties of the lazy wrapper\<close>

subsection \<open>What a call of preload and a render attempt do to the wrapper\<close>

lemma ensure_promise_Some: "promise l = Some d \<Longrightarrow> ensure_promise l = (Inr d, l)"
  by (simp add: ensure_promise_def)

lemma ensure_promise_raises:
  "promise l = None \<Longrightarrow> loader l (loadCalls l) = LoadRaises e \<Longrightarrow>
     ensure_promise l = (Inl e, l\<lparr>loadCalls := Suc (loadCalls l)\<rparr>)"
  by (simp add: ensure_promise_def loadModule_def load_def)

lemma ensure_promise_returns:
  "promise l = None \<Longrightarrow> loader l (loadCalls l) = LoadReturns \<Longrightarrow>
     ensure_promise l =
       (Inr (Suc (fresh (lstore l))),
        l\<lparr>loadCalls := Suc (loadCalls l),
          lstore := promise_then (fresh (lstore l)) (Some LoadModuleThen) None
                      (Some (Suc (fresh (lstore l))))
                      (snd (new_promise (snd (new_promise (lstore l))))),
          promise := Some (Suc (fresh (lstore l)))\<rparr>)"
  by (simp add: ensure_promise_def loadModule_def load_def new_promise_def Let_def)

lemma ensure_promise_cases:
  obtains (cached) d where "promise l = Some d" "ensure_promise l = (Inr d, l)"
  | (raises) e where "promise l = None" "loader l (loadCalls l) = LoadRaises e"
      "ensure_promise l = (Inl e, l\<lparr>loadCalls := Suc (loadCalls l)\<rparr>)"
  | (returns) d l1 where "promise l = None" "loader l (loadCalls l) = LoadReturns"
      "ensure_promise l = (Inr d, l1)" "promise l1 = Some d"
proof (cases "promise l")
  case None
  show ?thesis
  proof (cases "loader l (loadCalls l)")
    case LoadReturns
    show ?thesis
      using returns [OF None LoadReturns ensure_promise_returns [OF None LoadReturns]] by simp
  next
    case (LoadRaises e)
    show ?thesis using raises [OF None LoadRaises ensure_promise_raises [OF None LoadRaises]] .
  qed
next
  case (Some d)
  show ?thesis using cached [OF Some ensure_promise_Some [OF Some]] .
qed

lemma ensure_promise_fields:
  "component (snd (ensure_promise l)) = component l"
  "updateCalls (snd (ensure_promise l)) = updateCalls l"
  "loader (snd (ensure_promise l)) = loader l"
  "loadCalls (snd (ensure_promise l)) = (if promise l = None then Suc (loadCalls l) else loadCalls l)"
  by (cases l rule: ensure_promise_cases;
      simp add: ensure_promise_returns ensure_promise_raises ensure_promise_Some)+

lemma ensure_promise_promise:
  "promise (snd (ensure_promise l)) =
     (case fst (ensure_promise l) of Inl e \<Rightarrow> None | Inr d \<Rightarrow> Some d)"
  by (cases l rule: ensure_promise_cases) simp_all

lemma LazyComponent_fields:
  "promise (snd (snd (LazyComponent lprops h ref l))) = promise (snd (ensure_promise l))"
  "component (snd (snd (LazyComponent lprops h ref l))) = component l"
  "updateCalls (snd (snd (LazyComponent lprops h ref l))) = updateCalls l"
  "loader (snd (snd (LazyComponent lprops h ref l))) = loader l"
  "loadCalls (snd (snd (LazyComponent lprops h ref l))) =
     (if promise l = None then Suc (loadCalls l) else loadCalls l)"
  using ensure_promise_fields [of l]
  by (auto simp: LazyComponent_def Let_def split: prod.splits sum.splits)

lemma LazyComponent_result:
  "fst (LazyComponent lprops h ref l) =
     (case fst (ensure_promise l) of
        Inl e \<Rightarrow> Raised e
      | Inr d \<Rightarrow>
          if component l \<noteq> JUndefined then Returned (createElement (component l) lprops [])
          else Thrown d)"
  using ensure_promise_fields [of l]
  by (auto simp: LazyComponent_def Let_def split: prod.splits sum.splits)

lemma lazy_run_reaction_fields [simp]:
  "promise (lazy_run_reaction r out l) = promise l"
  "loadCalls (lazy_run_reaction r out l) = loadCalls l"
  "loader (lazy_run_reaction r out l) = loader l"
  by (auto simp: lazy_run_reaction_def settle_derived_def resolve_derived_def run_callback_def
      loadModule_then_def Let_def split: outcome.splits option.splits prod.splits
      lazy_callback.splits jsval.splits)

lemma lazy_run_jobs_fields [simp]:
  "promise (lazy_run_jobs n l) = promise l"
  "loadCalls (lazy_run_jobs n l) = loadCalls l"
  "loader (lazy_run_jobs n l) = loader l"
  by (induction n arbitrary: l) (auto split: list.splits)

lemma lazy_run_snoc: "lazy_run ld (evs @ [e]) = lazy_step e (lazy_run ld evs)"
  by (simp add: lazy_run_def)

lemma returned_promises_snoc:
  "returned_promises (res @ [r]) =
     returned_promises res \<union>
       (case r of PreloadReturned d \<Rightarrow> {d} | Rendered (Thrown d) \<Rightarrow> {d} | _ \<Rightarrow> {})"
  by (auto simp: returned_promises_def split: lazy_result.splits render_result.splits)

lemma raised_values_snoc:
  "raised_values (res @ [r]) =
     raised_values res \<union>
       (case r of PreloadRaised e \<Rightarrow> {e} | Rendered (Raised e) \<Rightarrow> {e} | _ \<Rightarrow> {})"
  by (auto simp: raised_values_def split: lazy_result.splits render_result.splits)

subsection \<open>A render attempt\<close>

text \<open>
  Claim C7, as amended.  A render attempt calls the loader when, and only when, no promise
  is cached, and it keeps a promise cached before.  When that call of the loader raises,
  the attempt raises the loader's error: no promise is cached, no reaction registered and
  no content cached.  Otherwise (a promise was cached, or the call of the loader returns
  one) a promise is cached after the attempt.  When content is cached (\<^verbatim>\<open>component\<close> is
  not \<^verbatim>\<open>undefined\<close>) the attempt returns the element of that content with the props it
  received, and changes nothing when a promise had been cached.  When no content is cached
  the attempt raises the cached promise; when moreover the \<^verbatim>\<open>useRef\<close> cell of the
  instance is empty or falsy (as it is when no content was cached at the first render of
  the instance), it has registered on the promise a reaction that calls \<^verbatim>\<open>update(1)\<close>:
  the reaction is the last one waiting on the promise, or the last job of the queue when
  the promise has settled.
  Run for a fulfilment the reaction requests the re-render; run for a rejection it does
  nothing.
\<close>

theorem lazy_render_attempt:
  assumes "LazyComponent lprops h ref l = (res, ref', l')"
  shows "loadCalls l' = (if promise l = None then Suc (loadCalls l) else loadCalls l) \<and>
    (\<forall>q. promise l = Some q \<longrightarrow> promise l' = Some q) \<and>
    (\<forall>e. promise l = None \<and> loader l (loadCalls l) = LoadRaises e \<longrightarrow>
       res = Raised e \<and> promise l' = None \<and> component l' = component l \<and>
       lstore l' = lstore l \<and> updateCalls l' = updateCalls l) \<and>
    (promise l \<noteq> None \<or> loader l (loadCalls l) = LoadReturns \<longrightarrow>
       (\<exists>d. promise l' = Some d \<and> (component l = JUndefined \<longrightarrow> res = Thrown d)) \<and>
       (component l \<noteq> JUndefined \<longrightarrow>
          res = Returned (createElement (component l) lprops []) \<and>
          (promise l \<noteq> None \<longrightarrow> l' = l)) \<and>
       (component l = JUndefined \<and> (case ref of None \<Rightarrow> True | Some r \<Rightarrow> \<not> truthy r) \<longrightarrow>
          (\<exists>d. promise l' = Some d \<and> res = Thrown d \<and>
             (pstate (lstore l') d = Pending \<longrightarrow>
                reactions (lstore l') d \<noteq> [] \<and>
                last (reactions (lstore l') d) = update_reaction h) \<and>
             (\<forall>out. pstate (lstore l') d = Settled out \<longrightarrow>
                jobs (lstore l') \<noteq> [] \<and> last (jobs (lstore l')) = (update_reaction h, out))))) \<and>
    (\<forall>u x. updateCalls (lazy_run_reaction (update_reaction h) (Fulfill x) u) = updateCalls u @ [h]) \<and>
    (\<forall>u e. lazy_run_reaction (update_reaction h) (Reject e) u = u)"
proof -
  have l': "l' = snd (snd (LazyComponent lprops h ref l))"
    and res: "res = fst (LazyComponent lprops h ref l)"
    using assms by simp_all
  have 1: "loadCalls l' = (if promise l = None then Suc (loadCalls l) else loadCalls l)"
    unfolding l' by (rule LazyComponent_fields)
  have 2: "\<forall>q. promise l = Some q \<longrightarrow> promise l' = Some q"
    unfolding l' by (simp add: LazyComponent_fields ensure_promise_Some)
  have 3: "res = Raised e \<and> promise l' = None \<and> component l' = component l \<and>
       lstore l' = lstore l \<and> updateCalls l' = updateCalls l"
    if "promise l = None" "loader l (loadCalls l) = LoadRaises e" for e
    using assms ensure_promise_raises [OF that] that(1)
    by (auto simp: LazyComponent_def Let_def)
  have 4: "(\<exists>d. promise l' = Some d \<and> (component l = JUndefined \<longrightarrow> res = Thrown d)) \<and>
       (component l \<noteq> JUndefined \<longrightarrow>
          res = Returned (createElement (component l) lprops []) \<and>
          (promise l \<noteq> None \<longrightarrow> l' = l)) \<and>
       (component l = JUndefined \<and> (case ref of None \<Rightarrow> True | Some r \<Rightarrow> \<not> truthy r) \<longrightarrow>
          (\<exists>d. promise l' = Some d \<and> res = Thrown d \<and>
             (pstate (lstore l') d = Pending \<longrightarrow>
                reactions (lstore l') d \<noteq> [] \<and>
                last (reactions (lstore l') d) = update_reaction h) \<and>
             (\<forall>out. pstate (lstore l') d = Settled out \<longrightarrow>
                jobs (lstore l') \<noteq> [] \<and> last (jobs (lstore l')) = (update_reaction h, out))))"
    if g: "promise l \<noteq> None \<or> loader l (loadCalls l) = LoadReturns"
  proof -
    obtain d l1 where e: "ensure_promise l = (Inr d, l1)" and p1: "promise l1 = Some d"
      and same: "promise l \<noteq> None \<longrightarrow> l1 = l"
      using g by (cases l rule: ensure_promise_cases) auto
    have c1: "component l1 = component l" using ensure_promise_fields(1) [of l] e by simp
    have a: "\<exists>d. promise l' = Some d \<and> (component l = JUndefined \<longrightarrow> res = Thrown d)"
      using assms e p1 c1 by (auto simp: LazyComponent_def Let_def split: if_splits)
    have b: "component l \<noteq> JUndefined \<longrightarrow>
          res = Returned (createElement (component l) lprops []) \<and>
          (promise l \<noteq> None \<longrightarrow> l' = l)"
      using assms e c1 same by (auto simp: LazyComponent_def Let_def)
    have c: "\<exists>d. promise l' = Some d \<and> res = Thrown d \<and>
             (pstate (lstore l') d = Pending \<longrightarrow>
                reactions (lstore l') d \<noteq> [] \<and>
                last (reactions (lstore l') d) = update_reaction h) \<and>
             (\<forall>out. pstate (lstore l') d = Settled out \<longrightarrow>
                jobs (lstore l') \<noteq> [] \<and> last (jobs (lstore l')) = (update_reaction h, out))"
      if c: "component l = JUndefined" and r: "case ref of None \<Rightarrow> True | Some r \<Rightarrow> \<not> truthy r"
    proof -
      have cur: "\<not> truthy (case ref of None \<Rightarrow> component l | Some r \<Rightarrow> r)"
        using c r by (cases ref) simp_all
      have l'': "l' = l1\<lparr>lstore := promise_then d (Some (UpdateOne h)) None None (lstore l1)\<rparr>"
        and res': "res = Thrown d"
        using assms e c1 c cur by (simp_all add: LazyComponent_def Let_def)
      show ?thesis
        by (intro exI [of _ d])
           (auto simp: l'' res' p1 promise_then_def Let_def update_reaction_def split: pstate.splits)
    qed
    show ?thesis using a b c by blast
  qed
  have 5: "\<forall>u x. updateCalls (lazy_run_reaction (update_reaction h) (Fulfill x) u) = updateCalls u @ [h]"
    by (simp add: lazy_run_reaction_def update_reaction_def run_callback_def resolve_derived_def)
  have 6: "\<forall>u e. lazy_run_reaction (update_reaction h) (Reject e) u = u"
    by (simp add: lazy_run_reaction_def update_reaction_def settle_derived_def)
  show ?thesis using 1 2 3 4 5 6 by blast
qed

theorem lazy_render_attempt_witness:
  "component (lazy returning_loader) = JUndefined \<and>
   fst (LazyComponent JNull 0 None (lazy returning_loader)) = Thrown 1 \<and>
   promise (snd (snd (LazyComponent JNull 0 None (lazy returning_loader)))) = Some 1 \<and>
   loadCalls (snd (snd (LazyComponent JNull 0 None (lazy returning_loader)))) = 1 \<and>
   last (reactions (lstore (snd (snd (LazyComponent JNull 0 None (lazy returning_loader))))) 1) =
     update_reaction 0 \<and>
   updateCalls (lazy_run_reaction (update_reaction 0) (Fulfill (JFun 9))
      (snd (snd (LazyComponent JNull 0 None (lazy returning_loader))))) = [0] \<and>
   updateCalls (lazy_run_reaction (update_reaction 0) (Reject (JStr ''offline''))
      (snd (snd (LazyComponent JNull 0 None (lazy returning_loader))))) = [] \<and>
   component loaded_run \<noteq> JUndefined \<and>
   fst (LazyComponent (JObj [(''id'', JNum 3)]) 0 None loaded_run) =
     Returned (createElement (JFun 9) (JObj [(''id'', JNum 3)]) []) \<and>
   loader (lazy raising_loader) (loadCalls (lazy raising_loader)) = LoadRaises (JStr ''boom'') \<and>
   fst (LazyComponent JNull 0 None (lazy raising_loader)) = Raised (JStr ''boom'') \<and>
   promise (snd (snd (LazyComponent JNull 0 None (lazy raising_loader)))) = None \<and>
   loadCalls (snd (snd (LazyComponent JNull 0 None (lazy raising_loader)))) = 1"
proof -
  let ?x = "LazyComponent JNull 0 None (lazy returning_loader)"
  let ?y = "LazyComponent (JObj [(''id'', JNum 3)]) 0 None loaded_run"
  let ?z = "LazyComponent JNull 0 None (lazy raising_loader)"
  have x: "?x = (fst ?x, fst (snd ?x), snd (snd ?x))" by simp
  have y: "?y = (fst ?y, fst (snd ?y), snd (snd ?y))" by simp
  have z: "?z = (fst ?z, fst (snd ?z), snd (snd ?z))" by simp
  note a = lazy_render_attempt [OF x]
  note b = lazy_render_attempt [OF y]
  note c = lazy_render_attempt [OF z]
  have c0: "component (lazy returning_loader) = JUndefined"
    and p0: "promise (lazy returning_loader) = None"
    and l0: "loadCalls (lazy returning_loader) = 0"
    and r0: "loader (lazy returning_loader) (loadCalls (lazy returning_loader)) = LoadReturns"
    and pz: "promise (lazy raising_loader) = None"
    and lz: "loadCalls (lazy raising_loader) = 0"
    and rz: "loader (lazy raising_loader) (loadCalls (lazy raising_loader)) = LoadRaises (JStr ''boom'')"
    by (simp_all add: lazy_def returning_loader_def raising_loader_def)
  have ev: "pstate (lstore (snd (snd ?x))) 1 = Pending" "updateCalls (snd (snd ?x)) = []"
    "component loaded_run = JFun 9" "promise loaded_run = Some 1"
    by code_simp+
  from a c0 r0 obtain d where d: "promise (snd (snd ?x)) = Some d" "fst ?x = Thrown d"
    "pstate (lstore (snd (snd ?x))) d = Pending \<longrightarrow>
       last (reactions (lstore (snd (snd ?x))) d) = update_reaction 0"
    by auto
  have d1: "d = 1"
  proof -
    have "promise (snd (snd ?x)) = Some 1" by code_simp
    then show ?thesis using d(1) by simp
  qed
  have 1: "loadCalls (snd (snd ?x)) = 1" using a p0 l0 by simp
  have 2: "updateCalls (lazy_run_reaction (update_reaction 0) (Fulfill (JFun 9)) (snd (snd ?x))) = [0]"
    using a ev(2) by simp
  have 3: "updateCalls (lazy_run_reaction (update_reaction 0) (Reject (JStr ''offline''))
      (snd (snd ?x))) = []"
    using a ev(2) by simp
  have 4: "fst ?y = Returned (createElement (JFun 9) (JObj [(''id'', JNum 3)]) [])"
    using b ev(3,4) by simp
  have 5: "fst ?z = Raised (JStr ''boom'') \<and> promise (snd (snd ?z)) = None"
    using c pz rz by blast
  have 6: "loadCalls (snd (snd ?z)) = 1" using c pz lz by simp
  show ?thesis
    using c0 d d1 ev 1 2 3 4 5 6 rz by simp
qed

text \<open>
  Claim C7 as it is stated fails for a load that is rejected: after a render attempt of
  a new wrapper has raised promise 1, the loader's promise 0 is rejected and the job
  queue runs empty; both promises are then rejected and no call \<^verbatim>\<open>update(1)\<close> has been
  made.  It also fails for a loader whose call raises: the render attempt raises the
  loader's error, not a promise, and caches no promise, so that the next attempt calls
  the loader again.
\<close>

theorem rerender_on_rejection_counterexample:
  "fst (LazyComponent JNull 0 None (lazy returning_loader)) = Thrown 1 \<and>
   pstate (lstore offline_run) 0 = Settled (Reject (JStr ''offline'')) \<and>
   pstate (lstore offline_run) 1 = Settled (Reject (JStr ''offline'')) \<and>
   jobs (lstore offline_run) = [] \<and>
   updateCalls offline_run = [] \<and>
   snd (snd (lazy_run raising_loader [Render JNull 0, Render JNull 0])) =
     [Rendered (Raised (JStr ''boom'')), Rendered (Raised (JStr ''boom''))] \<and>
   promise (fst (lazy_run raising_loader [Render JNull 0, Render JNull 0])) = None \<and>
   loadCalls (fst (lazy_run raising_loader [Render JNull 0, Render JNull 0])) = 2 \<and>
   reactions (lstore (fst (lazy_run raising_loader [Render JNull 0, Render JNull 0]))) 0 = [] \<and>
   jobs (lstore (fst (lazy_run raising_loader [Render JNull 0, Render JNull 0]))) = []"
  by code_simp

subsection \<open>The loader is called once\<close>

lemma load_once_step:
  assumes "load_once started t"
  shows "load_once (started \<or> starts_load e) (lazy_step e t)"
proof -
  obtain l refs res where t: "t = (l, refs, res)" by (cases t)
  have ld: "loader l 0 = LoadReturns" using assms t by (simp add: load_once_def)
  have ok: "promise l \<noteq> None \<or> loader l (loadCalls l) = LoadReturns"
    using assms t ld by (cases started) (auto simp: load_once_def)
  obtain d l1 where p: "ensure_promise l = (Inr d, l1)" and p1: "promise l1 = Some d"
    and same: "\<forall>q. promise l = Some q \<longrightarrow> d = q"
    using ok by (cases l rule: ensure_promise_cases) auto
  have f: "loadCalls l1 = (if promise l = None then Suc (loadCalls l) else loadCalls l)"
    "loader l1 = loader l"
    using ensure_promise_fields [of l] p by simp_all
  show ?thesis
  proof (cases e)
    case Preload
    show ?thesis
      using assms t Preload p p1 f same
      by (cases started)
         (auto simp: load_once_def preload_def returned_promises_snoc raised_values_snoc)
  next
    case (Render lprops h)
    obtain r c l2 where q: "LazyComponent lprops h (refs h) l = (r, c, l2)"
      by (cases "LazyComponent lprops h (refs h) l")
    have g: "promise l2 = Some d"
      "loadCalls l2 = (if promise l = None then Suc (loadCalls l) else loadCalls l)"
      "loader l2 = loader l"
      using LazyComponent_fields [of lprops h "refs h" l] p p1 q by simp_all
    have r: "r = (if component l \<noteq> JUndefined then Returned (createElement (component l) lprops [])
      else Thrown d)"
      using LazyComponent_result [of lprops h "refs h" l] p q by simp
    show ?thesis
      using assms t Render q g r same
      by (cases started)
         (auto simp: load_once_def returned_promises_snoc raised_values_snoc)
  next
    case (SettleLoad p out)
    then show ?thesis using assms t by (auto simp: load_once_def settle_load_def)
  next
    case RunJob
    then show ?thesis using assms t by (auto simp: load_once_def simp del: lazy_run_jobs.simps)
  qed
qed

lemma load_once_run:
  "ld 0 = LoadReturns \<Longrightarrow> load_once (\<exists>e\<in>set evs. starts_load e) (lazy_run ld evs)"
proof (induction evs rule: rev_induct)
  case Nil
  then show ?case
    by (simp add: lazy_run_def load_once_def lazy_def returned_promises_def raised_values_def)
next
  case (snoc e evs)
  have "(\<exists>x\<in>set (evs @ [e]). starts_load x) = ((\<exists>x\<in>set evs. starts_load x) \<or> starts_load e)"
    by auto
  then show ?case
    using load_once_step [OF snoc.IH [OF snoc.prems], of e] by (simp add: lazy_run_snoc)
qed

lemma results_length: "length (snd (snd (lazy_run ld evs))) = length (filter starts_load evs)"
proof (induction evs rule: rev_induct)
  case Nil
  then show ?case by (simp add: lazy_run_def)
next
  case (snoc e evs)
  obtain l refs res where t: "lazy_run ld evs = (l, refs, res)" by (cases "lazy_run ld evs")
  show ?case
    using snoc.IH t
    by (cases e) (auto simp: lazy_run_snoc split: prod.splits sum.splits)
qed

text \<open>
  Claim C8, as amended.  Take a new wrapper whose loader returns a promise at its first
  call.  Over any sequence of calls of \<^verbatim>\<open>preload\<close>, render attempts, settlements and jobs,
  the loader has been called once as soon as \<^verbatim>\<open>preload\<close> or a render attempt has
  happened (and not before); every such call gives a result, none of them raises an
  error, and every promise returned by \<^verbatim>\<open>preload\<close> or raised by a render attempt is the
  one cached promise.
\<close>

theorem loader_invoked_once:
  assumes "ld 0 = LoadReturns"
  shows "loadCalls (fst (lazy_run ld evs)) = (if \<exists>e\<in>set evs. starts_load e then 1 else 0) \<and>
   length (snd (snd (lazy_run ld evs))) = length (filter starts_load evs) \<and>
   (\<forall>e. PreloadRaised e \<notin> set (snd (snd (lazy_run ld evs))) \<and>
        Rendered (Raised e) \<notin> set (snd (snd (lazy_run ld evs)))) \<and>
   (\<forall>d. PreloadReturned d \<in> set (snd (snd (lazy_run ld evs))) \<or>
        Rendered (Thrown d) \<in> set (snd (snd (lazy_run ld evs))) \<longrightarrow>
          promise (fst (lazy_run ld evs)) = Some d)"
proof -
  obtain l refs res where t: "lazy_run ld evs = (l, refs, res)" by (cases "lazy_run ld evs")
  show ?thesis
    using load_once_run [of ld evs] assms results_length [of ld evs] t
    by (auto simp: load_once_def returned_promises_def raised_values_def split: if_splits)
qed

theorem loader_invoked_once_witness:
  "returning_loader 0 = LoadReturns \<and>
   loadCalls (fst (lazy_run returning_loader [Preload, Render JNull 0,
      SettleLoad 0 (Fulfill (JObj [(''default'', JFun 9)])), RunJob, RunJob,
      Preload, Render JNull 0])) = 1 \<and>
   snd (snd (lazy_run returning_loader [Preload, Render JNull 0,
      SettleLoad 0 (Fulfill (JObj [(''default'', JFun 9)])), RunJob, RunJob,
      Preload, Render JNull 0])) =
     [PreloadReturned 1, Rendered (Thrown 1), PreloadReturned 1,
      Rendered (Returned (Element (JFun 9) JNull []))] \<and>
   promise (fst (lazy_run returning_loader [Preload, Render JNull 0,
      SettleLoad 0 (Fulfill (JObj [(''default'', JFun 9)])), RunJob, RunJob,
      Preload, Render JNull 0])) = Some 1"
proof -
  let ?evs = "[Preload, Render JNull 0,
      SettleLoad 0 (Fulfill (JObj [(''default'', JFun 9)])), RunJob, RunJob,
      Preload, Render JNull 0]"
  have h: "returning_loader 0 = LoadReturns" by (simp add: returning_loader_def)
  note a = loader_invoked_once [where ld = returning_loader and evs = ?evs, OF h]
  have res: "snd (snd (lazy_run returning_loader ?evs)) =
     [PreloadReturned 1, Rendered (Thrown 1), PreloadReturned 1,
      Rendered (Returned (Element (JFun 9) JNull []))]"
    by code_simp
  have 1: "loadCalls (fst (lazy_run returning_loader ?evs)) = 1" using a by simp
  have "PreloadReturned 1 \<in> set (snd (snd (lazy_run returning_loader ?evs)))" unfolding res by simp
  then have 2: "promise (fst (lazy_run returning_loader ?evs)) = Some 1" using a by blast
  show ?thesis using 1 2 res h by simp
qed

text \<open>
  Claim C8 as it is stated fails for a loader whose calls raise: no promise is ever
  cached, so that two calls of \<^verbatim>\<open>preload\<close> and a render attempt call the loader three
  times, and \<^verbatim>\<open>preload\<close> raises the loader's error instead of returning a promise.
\<close>

theorem raising_loader_counterexample:
  "loadCalls (fst (lazy_run raising_loader [Preload, Render JNull 0, Preload])) = 3 \<and>
   promise (fst (lazy_run raising_loader [Preload, Render JNull 0, Preload])) = None \<and>
   snd (snd (lazy_run raising_loader [Preload, Render JNull 0, Preload])) =
     [PreloadRaised (JStr ''boom''), Rendered (Raised (JStr ''boom'')),
      PreloadRaised (JStr ''boom'')]"
  by code_simp

subsection \<open>The cached content\<close>

lemma preload_fulfilled_component:
  assumes "ld 0 = LoadReturns"
  shows "component (lazy_run_jobs 1 (settle_load 0 (Fulfill m) (snd (preload (lazy ld))))) =
     fst (loadModule_then m (lazy ld))"
  using assms
  by (simp add: preload_def ensure_promise_def loadModule_def load_def new_promise_def
        lazy_def empty_store_def promise_then_def settle_load_def settle_def Let_def
        lazy_run_reaction_def run_callback_def resolve_derived_def loadModule_then_def
        split: jsval.splits)

lemma render_fulfilled_result:
  assumes "ld 0 = LoadReturns"
    and lm: "\<And>u. loadModule_then m u = (JFun f, u\<lparr>component := JFun f\<rparr>)"
  shows "snd (snd (lazy_run ld [Render lprops h, SettleLoad 0 (Fulfill m), RunJob, RunJob,
           Render lprops h])) =
     [Rendered (Thrown 1), Rendered (Returned (createElement (JFun f) lprops []))]"
  using assms(1)
  by (simp add: lazy_run_def LazyComponent_def ensure_promise_def loadModule_def load_def
        new_promise_def lm
        lazy_def empty_store_def promise_then_def settle_load_def settle_def Let_def
        lazy_run_reaction_def run_callback_def resolve_derived_def)

text \<open>
  Claim C9.  For a value \<open>m\<close> whose default field holds a component, the callback of
  \<^verbatim>\<open>loadModule\<close> returns and caches the value of that field; for a component \<open>m\<close> it
  returns and caches \<open>m\<close> itself.  Both are the content of the specification, which the
  callback returns and caches whenever that content is truthy or \<open>m\<close> has no default
  field.  When the loader of a new wrapper returns a promise and that promise is
  fulfilled with \<open>m\<close>, the content of the specification being a component: after a
  preload the first job caches this content and a render attempt returns its element with
  the props received; and a render attempt made before the fulfilment raises promise 1,
  the one made after the two jobs returns the element of this content.
\<close>

theorem default_export_normalised:
  "(is_component (get m ''default'') \<longrightarrow>
      spec_content m = get m ''default'' \<and>
      loadModule_then m l = (get m ''default'', l\<lparr>component := get m ''default''\<rparr>)) \<and>
   (is_component m \<longrightarrow>
      spec_content m = m \<and> loadModule_then m l = (m, l\<lparr>component := m\<rparr>)) \<and>
   (truthy (spec_content m) \<or> (\<forall>fs. m = JObj fs \<longrightarrow> map_of fs ''default'' = None) \<longrightarrow>
      loadModule_then m l = (spec_content m, l\<lparr>component := spec_content m\<rparr>)) \<and>
   (ld 0 = LoadReturns \<and> is_component (spec_content m) \<longrightarrow>
      component (lazy_run_jobs 1 (settle_load 0 (Fulfill m) (snd (preload (lazy ld))))) =
        spec_content m \<and>
      fst (LazyComponent lprops h ref
            (lazy_run_jobs 1 (settle_load 0 (Fulfill m) (snd (preload (lazy ld)))))) =
        Returned (createElement (spec_content m) lprops []) \<and>
      snd (snd (lazy_run ld [Render lprops h, SettleLoad 0 (Fulfill m), RunJob, RunJob,
           Render lprops h])) =
        [Rendered (Thrown 1), Rendered (Returned (createElement (spec_content m) lprops []))])"
proof -
  have c: "loadModule_then m u = (spec_content m, u\<lparr>component := spec_content m\<rparr>)"
    if "truthy (spec_content m) \<or> (\<forall>fs. m = JObj fs \<longrightarrow> map_of fs ''default'' = None)" for u
    using that
    by (cases m) (auto simp: loadModule_then_def Let_def spec_content_def split: option.splits)
  have t: "is_component x \<Longrightarrow> truthy x \<and> x \<noteq> JUndefined" for x by (cases x) simp_all
  have sa: "spec_content m = get m ''default''" if "is_component (get m ''default'')"
    using that by (cases m) (auto simp: spec_content_def split: option.splits if_splits)
  have sb: "spec_content m = m" if "is_component m"
    using that by (cases m) (auto simp: spec_content_def)
  have a: "is_component (get m ''default'') \<longrightarrow>
      spec_content m = get m ''default'' \<and>
      loadModule_then m l = (get m ''default'', l\<lparr>component := get m ''default''\<rparr>)"
    using sa c [of l] t [of "get m ''default''"] by auto
  have b: "is_component m \<longrightarrow>
      spec_content m = m \<and> loadModule_then m l = (m, l\<lparr>component := m\<rparr>)"
    using sb c [of l] t [of m] by auto
  have d: "component (lazy_run_jobs 1 (settle_load 0 (Fulfill m) (snd (preload (lazy ld))))) =
        spec_content m \<and>
      fst (LazyComponent lprops h ref
            (lazy_run_jobs 1 (settle_load 0 (Fulfill m) (snd (preload (lazy ld)))))) =
        Returned (createElement (spec_content m) lprops []) \<and>
      snd (snd (lazy_run ld [Render lprops h, SettleLoad 0 (Fulfill m), RunJob, RunJob,
           Render lprops h])) =
        [Rendered (Thrown 1), Rendered (Returned (createElement (spec_content m) lprops []))]"
    if ld: "ld 0 = LoadReturns" and ic: "is_component (spec_content m)"
  proof -
    let ?u = "lazy_run_jobs 1 (settle_load 0 (Fulfill m) (snd (preload (lazy ld))))"
    have f: "fst (loadModule_then m (lazy ld)) = spec_content m"
      using c [of "lazy ld"] t [OF ic] by simp
    have 1: "component ?u = spec_content m"
      using preload_fulfilled_component [of ld m] ld f by simp
    have "promise (snd (preload (lazy ld))) = Some 1"
      using ld
      by (simp add: preload_def lazy_def empty_store_def ensure_promise_def loadModule_def
          load_def new_promise_def Let_def)
    then have p: "promise ?u = Some 1" by (simp add: settle_load_def del: lazy_run_jobs.simps)
    have 2: "fst (LazyComponent lprops h ref ?u) =
        Returned (createElement (spec_content m) lprops [])"
      using t [OF ic] 1 p
      by (simp add: LazyComponent_result ensure_promise_Some del: lazy_run_jobs.simps)
    have 3: "snd (snd (lazy_run ld [Render lprops h, SettleLoad 0 (Fulfill m), RunJob, RunJob,
           Render lprops h])) =
        [Rendered (Thrown 1), Rendered (Returned (createElement (spec_content m) lprops []))]"
    proof -
      obtain g where g: "spec_content m = JFun g" using ic by (cases "spec_content m") simp_all
      have "loadModule_then m u = (JFun g, u\<lparr>component := JFun g\<rparr>)" for u
        using c [of u] g by simp
      then show ?thesis
        using render_fulfilled_result [of ld m g lprops h] ld g by simp
    qed
    show ?thesis using 1 2 3 by blast
  qed
  show ?thesis using a b c [of l] d by blast
qed

theorem default_export_normalised_witness:
  "is_component (get (JObj [(''default'', JFun 9)]) ''default'') \<and>
   spec_content (JObj [(''default'', JFun 9)]) = JFun 9 \<and>
   component (snd (loadModule_then (JObj [(''default'', JFun 9)]) (lazy returning_loader))) =
     JFun 9 \<and>
   is_component (JFun 9) \<and>
   spec_content (JFun 9) = JFun 9 \<and>
   component (snd (loadModule_then (JFun 9) (lazy returning_loader))) = JFun 9 \<and>
   returning_loader 0 = LoadReturns \<and>
   component (lazy_run_jobs 1 (settle_load 0 (Fulfill (JObj [(''default'', JFun 9)]))
      (snd (preload (lazy returning_loader))))) = JFun 9 \<and>
   fst (LazyComponent (JObj [(''id'', JNum 3)]) 0 None
      (lazy_run_jobs 1 (settle_load 0 (Fulfill (JObj [(''default'', JFun 9)]))
         (snd (preload (lazy returning_loader)))))) =
     Returned (createElement (JFun 9) (JObj [(''id'', JNum 3)]) []) \<and>
   snd (snd (lazy_run returning_loader [Render (JObj [(''id'', JNum 3)]) 0,
      SettleLoad 0 (Fulfill (JFun 9)), RunJob, RunJob, Render (JObj [(''id'', JNum 3)]) 0])) =
     [Rendered (Thrown 1),
      Rendered (Returned (createElement (JFun 9) (JObj [(''id'', JNum 3)]) []))]"
proof -
  note a = default_export_normalised
    [where m = "JObj [(''default'', JFun 9)]" and l = "lazy returning_loader"
       and ld = returning_loader and lprops = "JObj [(''id'', JNum 3)]" and h = 0 and ref = None]
  note b = default_export_normalised
    [where m = "JFun 9" and l = "lazy returning_loader"
       and ld = returning_loader and lprops = "JObj [(''id'', JNum 3)]" and h = 0 and ref = None]
  have 1: "is_component (get (JObj [(''default'', JFun 9)]) ''default'')" by simp
  have 2: "is_component (JFun 9)" by simp
  have 3: "returning_loader 0 = LoadReturns" by (simp add: returning_loader_def)
  have g: "get (JObj [(''default'', JFun 9)]) ''default'' = JFun 9" by simp
  have 4: "spec_content (JObj [(''default'', JFun 9)]) = JFun 9"
    "loadModule_then (JObj [(''default'', JFun 9)]) (lazy returning_loader) =
       (JFun 9, lazy returning_loader\<lparr>component := JFun 9\<rparr>)"
    using a 1 g by simp_all
  have 5: "spec_content (JFun 9) = JFun 9"
    "loadModule_then (JFun 9) (lazy returning_loader) =
       (JFun 9, lazy returning_loader\<lparr>component := JFun 9\<rparr>)"
    using b 2 by blast+
  have 6: "component (lazy_run_jobs 1 (settle_load 0 (Fulfill (JObj [(''default'', JFun 9)]))
      (snd (preload (lazy returning_loader))))) = JFun 9"
    "fst (LazyComponent (JObj [(''id'', JNum 3)]) 0 None
      (lazy_run_jobs 1 (settle_load 0 (Fulfill (JObj [(''default'', JFun 9)]))
         (snd (preload (lazy returning_loader)))))) =
     Returned (createElement (JFun 9) (JObj [(''id'', JNum 3)]) [])"
    using a 3 2 4(1) by simp_all
  have 7: "snd (snd (lazy_run returning_loader [Render (JObj [(''id'', JNum 3)]) 0,
      SettleLoad 0 (Fulfill (JFun 9)), RunJob, RunJob, Render (JObj [(''id'', JNum 3)]) 0])) =
     [Rendered (Thrown 1),
      Rendered (Returned (createElement (JFun 9) (JObj [(''id'', JNum 3)]) []))]"
    using b 3 2 5(1) by simp
  show ?thesis
    using 1 2 3 6 7 by (simp add: 4 5)
qed

subsection \<open>A rejected load\<close>

lemma only_rejections_lazy: "only_rejections (lazy ld)"
  by (simp add: only_rejections_def lazy_def empty_store_def)

lemma only_rejections_then:
  assumes "only_rejections l"
  shows "only_rejections (l\<lparr>lstore := promise_then p f None d (lstore l)\<rparr>)"
  using assms
  by (cases "pstate (lstore l) p")
     (auto simp: only_rejections_def promise_then_def Let_def split: outcome.splits,
      (metis outcome.exhaust)+)

lemma only_rejections_new:
  assumes "only_rejections l"
  shows "only_rejections (l\<lparr>lstore := snd (new_promise (lstore l))\<rparr>)"
  using assms by (auto simp: only_rejections_def new_promise_def)

lemma only_rejections_loadCalls [simp]:
  "only_rejections (l\<lparr>loadCalls := n\<rparr>) = only_rejections l"
  "only_rejections (l\<lparr>promise := q\<rparr>) = only_rejections l"
  by (simp_all add: only_rejections_def)

lemma only_rejections_ensure:
  assumes "only_rejections l"
  shows "only_rejections (snd (ensure_promise l))"
proof (cases "promise l")
  case None
  show ?thesis
  proof (cases "loader l (loadCalls l)")
    case LoadReturns
    let ?l1 = "l\<lparr>lstore := snd (new_promise (lstore l))\<rparr>"
    let ?l2 = "?l1\<lparr>lstore := snd (new_promise (lstore ?l1))\<rparr>"
    have 2: "only_rejections ?l2"
      using assms by (intro only_rejections_new)
    have "only_rejections (?l2\<lparr>lstore := promise_then (fresh (lstore l)) (Some LoadModuleThen) None
           (Some (fresh (lstore ?l1))) (lstore ?l2)\<rparr>)"
      using 2 by (rule only_rejections_then)
    then show ?thesis
      using None LoadReturns
      by (simp add: ensure_promise_def loadModule_def load_def Let_def new_promise_def
          only_rejections_def split: prod.splits)
  next
    case (LoadRaises e)
    then show ?thesis using assms None by (simp add: ensure_promise_raises)
  qed
next
  case (Some d)
  then show ?thesis using assms by (simp add: ensure_promise_def)
qed

lemma only_rejections_LazyComponent:
  assumes "only_rejections l"
  shows "only_rejections (snd (snd (LazyComponent lprops h ref l)))"
proof -
  obtain x l1 where e: "ensure_promise l = (x, l1)" by (cases "ensure_promise l")
  have 1: "only_rejections l1" using only_rejections_ensure [OF assms] e by simp
  show ?thesis
  proof (cases x)
    case (Inl err)
    then show ?thesis using 1 e by (simp add: LazyComponent_def Let_def)
  next
    case (Inr d)
    have "only_rejections (l1\<lparr>lstore := promise_then d (Some (UpdateOne h)) None None (lstore l1)\<rparr>)"
      using 1 by (rule only_rejections_then)
    then show ?thesis using 1 e Inr by (simp add: LazyComponent_def Let_def)
  qed
qed

lemma only_rejections_settle:
  assumes "only_rejections l"
  shows "only_rejections (l\<lparr>lstore := settle p (Reject e) (lstore l)\<rparr>)"
  using assms
  by (cases "pstate (lstore l) p") (auto simp: only_rejections_def settle_def)

lemma only_rejections_run_jobs:
  assumes "only_rejections l"
  shows "only_rejections (lazy_run_jobs n l)"
  using assms
proof (induction n arbitrary: l)
  case 0
  then show ?case by simp
next
  case (Suc n)
  show ?case
  proof (cases "jobs (lstore l)")
    case Nil
    then show ?thesis using Suc.prems by simp
  next
    case (Cons j js)
    obtain r out where j: "j = (r, out)" by (cases j)
    let ?l = "l\<lparr>lstore := (lstore l)\<lparr>jobs := js\<rparr>\<rparr>"
    obtain e where out: "out = Reject e" and nr: "onRejected r = None"
      using Suc.prems Cons j by (auto simp: only_rejections_def)
    have 1: "only_rejections ?l"
      using Suc.prems Cons by (auto simp: only_rejections_def)
    have "lazy_run_reaction r out ?l = settle_derived (derived r) (Reject e) ?l"
      by (simp add: lazy_run_reaction_def out nr)
    moreover have "only_rejections (settle_derived (derived r) (Reject e) ?l)"
      using only_rejections_settle [OF 1] 1
      by (cases "derived r") (simp_all add: settle_derived_def)
    ultimately have "only_rejections (lazy_run_reaction r out ?l)" by simp
    then show ?thesis using Suc.IH Cons j by simp
  qed
qed

lemma only_rejections_step:
  assumes "only_rejections (fst t)" and "\<not> is_fulfilment e"
  shows "only_rejections (fst (lazy_step e t))"
proof -
  obtain l refs res where t: "t = (l, refs, res)" by (cases t)
  show ?thesis
  proof (cases e)
    case Preload
    then show ?thesis
      using assms t only_rejections_ensure [of l]
      by (auto simp: preload_def split: prod.splits sum.splits)
  next
    case (Render lprops h)
    then show ?thesis
      using assms t only_rejections_LazyComponent [of l lprops h "refs h"]
      by (auto split: prod.splits)
  next
    case (SettleLoad p out)
    then obtain x where "out = Reject x" using assms(2) by (cases out) auto
    then show ?thesis
      using assms t SettleLoad only_rejections_settle [of l p x]
      by (simp add: settle_load_def)
  next
    case RunJob
    then show ?thesis
      using assms t only_rejections_run_jobs [of l 1]
      by (simp del: lazy_run_jobs.simps)
  qed
qed

lemma only_rejections_run:
  "\<forall>e\<in>set evs. \<not> is_fulfilment e \<Longrightarrow> only_rejections (fst (lazy_run ld evs))"
proof (induction evs rule: rev_induct)
  case Nil
  then show ?case by (simp add: lazy_run_def only_rejections_lazy)
next
  case (snoc e evs)
  then show ?case
    using only_rejections_step [of "lazy_run ld evs" e] by (simp add: lazy_run_snoc)
qed

lemma promise_kept_step:
  "promise (fst t) = Some d \<Longrightarrow> promise (fst (lazy_step e t)) = Some d"
proof -
  assume a: "promise (fst t) = Some d"
  obtain l refs res where t: "t = (l, refs, res)" by (cases t)
  show ?thesis
  proof (cases e)
    case Preload
    then show ?thesis using a t ensure_promise_Some [of l d]
      by (simp add: preload_def)
  next
    case (Render lprops h)
    then show ?thesis
      using a t ensure_promise_Some [of l d] LazyComponent_fields(1) [of lprops h "refs h" l]
      by (auto split: prod.splits)
  next
    case (SettleLoad p out)
    then show ?thesis using a t by (simp add: settle_load_def)
  next
    case RunJob
    then show ?thesis using a t by (simp del: lazy_run_jobs.simps)
  qed
qed

lemma promise_kept:
  "promise (fst (lazy_run ld evs)) = Some d \<Longrightarrow>
     promise (fst (lazy_run ld (evs @ evs'))) = Some d"
proof (induction evs' rule: rev_induct)
  case Nil
  then show ?case by simp
next
  case (snoc e evs')
  then show ?case
    using promise_kept_step [of "lazy_run ld (evs @ evs')" d e]
    by (simp add: lazy_run_snoc [of ld "evs @ evs'" e, simplified])
qed

lemma rendered_results_step:
  assumes "\<forall>r. Rendered r \<in> set (snd (snd t)) \<longrightarrow> (\<exists>d. r = Thrown d \<and> promise (fst t) = Some d)"
    and "component (fst t) = JUndefined"
    and "promise (fst t) \<noteq> None \<or> loader (fst t) (loadCalls (fst t)) = LoadReturns"
  shows "\<forall>r. Rendered r \<in> set (snd (snd (lazy_step e t))) \<longrightarrow>
           (\<exists>d. r = Thrown d \<and> promise (fst (lazy_step e t)) = Some d)"
proof (intro allI impI)
  fix r assume r: "Rendered r \<in> set (snd (snd (lazy_step e t)))"
  obtain l refs res where t: "t = (l, refs, res)" by (cases t)
  show "\<exists>d. r = Thrown d \<and> promise (fst (lazy_step e t)) = Some d"
  proof (cases "Rendered r \<in> set res")
    case True
    then obtain d where "r = Thrown d" "promise l = Some d" using assms(1) t by auto
    then show ?thesis using promise_kept_step [of t d e] t by simp
  next
    case False
    then obtain lprops h where e: "e = Render lprops h"
      using r t by (cases e) (auto simp: preload_def split: prod.splits sum.splits)
    obtain d l1 where p: "ensure_promise l = (Inr d, l1)" and p1: "promise l1 = Some d"
      using assms(3) t by (cases l rule: ensure_promise_cases) auto
    have "r = fst (LazyComponent lprops h (refs h) l)"
      using r t e False by (auto split: prod.splits)
    then have "r = Thrown d"
      using assms(2) t p by (simp add: LazyComponent_result)
    moreover have "promise (fst (lazy_step e t)) = Some d"
      using t e p p1 LazyComponent_fields(1) [of lprops h "refs h" l] by (auto split: prod.splits)
    ultimately show ?thesis by simp
  qed
qed

lemma rendered_results_run:
  assumes "\<forall>e\<in>set evs. \<not> is_fulfilment e" and "ld 0 = LoadReturns"
  shows "\<forall>r. Rendered r \<in> set (snd (snd (lazy_run ld evs))) \<longrightarrow>
           (\<exists>d. r = Thrown d \<and> promise (fst (lazy_run ld evs)) = Some d)"
  using assms(1)
proof (induction evs rule: rev_induct)
  case Nil
  then show ?case by (simp add: lazy_run_def)
next
  case (snoc e evs)
  have no: "\<forall>e\<in>set evs. \<not> is_fulfilment e" using snoc.prems by simp
  have c: "component (fst (lazy_run ld evs)) = JUndefined"
    using only_rejections_run [OF no] by (simp add: only_rejections_def)
  have ok: "promise (fst (lazy_run ld evs)) \<noteq> None \<or>
      loader (fst (lazy_run ld evs)) (loadCalls (fst (lazy_run ld evs))) = LoadReturns"
    using load_once_run [of ld evs] assms(2)
    by (cases "lazy_run ld evs") (auto simp: load_once_def split: if_splits)
  show ?case
    using rendered_results_step [OF snoc.IH [OF no] c ok, of e] by (simp add: lazy_run_snoc)
qed

lemma load_chain_lazy: "load_chain (lazy ld)"
  by (simp add: load_chain_def lazy_def empty_store_def)

lemma load_chain_loadCalls [simp]: "load_chain (l\<lparr>loadCalls := n\<rparr>) = load_chain l"
  by (simp add: load_chain_def)

lemma load_chain_ensure:
  assumes "load_chain l"
  shows "load_chain (snd (ensure_promise l)) \<and> (\<forall>d. fst (ensure_promise l) = Inr d \<longrightarrow> d = 1)"
proof (cases "promise l")
  case None
  then have f: "fresh (lstore l) = 0" using assms by (simp add: load_chain_def)
  show ?thesis
  proof (cases "loader l (loadCalls l)")
    case LoadReturns
    show ?thesis
      using assms None f
      by (auto simp: load_chain_def ensure_promise_returns [OF None LoadReturns] new_promise_def
        promise_then_def Let_def load_reaction_def)
  next
    case (LoadRaises e)
    then show ?thesis using assms None by (simp add: ensure_promise_raises)
  qed
next
  case (Some d)
  then have "d = 1" using assms by (simp add: load_chain_def)
  then show ?thesis using assms Some by (simp add: ensure_promise_def)
qed

lemma load_chain_then_1:
  assumes "load_chain l" and "promise l \<noteq> None" and "d \<noteq> Some 0"
  shows "load_chain (l\<lparr>lstore := promise_then 1 f g d (lstore l)\<rparr>)"
  using assms
  by (cases "pstate (lstore l) 1") (auto simp: load_chain_def promise_then_def Let_def)

lemma load_chain_LazyComponent:
  assumes "load_chain l"
  shows "load_chain (snd (snd (LazyComponent lprops h ref l)))"
proof -
  obtain x l1 where e: "ensure_promise l = (x, l1)" by (cases "ensure_promise l")
  have 1: "load_chain l1" using load_chain_ensure [OF assms] e by simp
  show ?thesis
  proof (cases x)
    case (Inl err)
    then show ?thesis using 1 e by (simp add: LazyComponent_def Let_def)
  next
    case (Inr d)
    have d: "d = 1" using load_chain_ensure [OF assms] e Inr by simp
    have p: "promise l1 \<noteq> None" using ensure_promise_promise [of l] e Inr by simp
    have "load_chain (l1\<lparr>lstore := promise_then 1 (Some (UpdateOne h)) None None (lstore l1)\<rparr>)"
      using 1 p by (intro load_chain_then_1) simp_all
    then show ?thesis using 1 e d Inr by (simp add: LazyComponent_def Let_def)
  qed
qed

lemma load_chain_settle:
  assumes "load_chain l"
  shows "load_chain (l\<lparr>lstore := settle p out (lstore l)\<rparr>)"
proof (cases "pstate (lstore l) p")
  case Pending
  show ?thesis
  proof (cases "promise l")
    case None
    then show ?thesis using assms Pending by (auto simp: load_chain_def settle_def)
  next
    case (Some d)
    show ?thesis
    proof (cases "p = 0")
      case True
      then show ?thesis
        using assms Pending Some
        by (auto simp: load_chain_def settle_def image_iff)
    next
      case False
      then show ?thesis
        using assms Pending Some
        by (auto simp: load_chain_def settle_def)
    qed
  qed
next
  case (Settled old)
  then show ?thesis using assms by (simp add: settle_def)
qed

lemma load_chain_run_job:
  assumes lc: "load_chain l" and orj: "only_rejections l"
    and js: "jobs (lstore l) = (r, out) # js"
  shows "load_chain (lazy_run_reaction r out (l\<lparr>lstore := (lstore l)\<lparr>jobs := js\<rparr>\<rparr>))"
proof -
  let ?l = "l\<lparr>lstore := (lstore l)\<lparr>jobs := js\<rparr>\<rparr>"
  obtain e where out: "out = Reject e" and nr: "onRejected r = None"
    using orj js by (auto simp: only_rejections_def)
  have d0: "derived r \<noteq> Some 0" using lc js by (auto simp: load_chain_def)
  have run: "lazy_run_reaction r out ?l = settle_derived (derived r) (Reject e) ?l"
    by (simp add: lazy_run_reaction_def out nr)
  show ?thesis
  proof (cases "derived r")
    case None
    have "r \<noteq> load_reaction" using None by (auto simp: load_reaction_def)
    then show ?thesis
      using lc js None unfolding run
      by (auto simp: load_chain_def settle_derived_def split: if_splits)
  next
    case (Some q)
    then have q0: "q \<noteq> 0" using d0 by simp
    show ?thesis
    proof (cases "r = load_reaction")
      case True
      then have q1: "q = 1" using Some by (simp add: load_reaction_def)
      show ?thesis
        using lc js Some q1 unfolding run
        by (cases "pstate (lstore l) 1")
           (auto simp: load_chain_def settle_derived_def settle_def split: if_splits)
    next
      case False
      show ?thesis
        using lc js Some q0 False unfolding run
        by (cases "pstate (lstore l) q")
           (auto simp: load_chain_def settle_derived_def settle_def split: if_splits)
    qed
  qed
qed

lemma load_chain_step:
  assumes "load_chain (fst t)" and "only_rejections (fst t)" and "\<not> is_fulfilment e"
  shows "load_chain (fst (lazy_step e t))"
proof -
  obtain l refs res where t: "t = (l, refs, res)" by (cases t)
  show ?thesis
  proof (cases e)
    case Preload
    then show ?thesis
      using assms t load_chain_ensure [of l]
      by (auto simp: preload_def split: prod.splits sum.splits)
  next
    case (Render lprops h)
    then show ?thesis
      using assms t load_chain_LazyComponent [of l lprops h "refs h"]
      by (auto split: prod.splits)
  next
    case (SettleLoad p out)
    then show ?thesis
      using assms t load_chain_settle [of l p out] by (simp add: settle_load_def)
  next
    case RunJob
    show ?thesis
    proof (cases "jobs (lstore l)")
      case Nil
      then show ?thesis using assms t RunJob by simp
    next
      case (Cons j js)
      obtain r out where j: "j = (r, out)" by (cases j)
      show ?thesis
        using assms t RunJob Cons j load_chain_run_job [of l r out js] by simp
    qed
  qed
qed


lemma load_chain_run:
  "\<forall>e\<in>set evs. \<not> is_fulfilment e \<Longrightarrow> load_chain (fst (lazy_run ld evs))"
proof (induction evs rule: rev_induct)
  case Nil
  then show ?case by (simp add: lazy_run_def load_chain_lazy)
next
  case (snoc e evs)
  have no: "\<forall>e\<in>set evs. \<not> is_fulfilment e" using snoc.prems by simp
  show ?case
    using load_chain_step [OF snoc.IH [OF no] only_rejections_run [OF no], of e] snoc.prems
    by (simp add: lazy_run_snoc)
qed

lemma raised_promise_rejected:
  assumes "\<forall>e\<in>set evs. \<not> is_fulfilment e"
    and "promise (fst (lazy_run ld evs)) = Some d"
    and "pstate (lstore (fst (lazy_run ld evs))) 0 \<noteq> Pending"
    and "jobs (lstore (fst (lazy_run ld evs))) = []"
  shows "\<exists>e. pstate (lstore (fst (lazy_run ld evs))) d = Settled (Reject e)"
proof -
  let ?l = "fst (lazy_run ld evs)"
  have "load_chain ?l" using load_chain_run [OF assms(1)] .
  then have d: "d = 1" and np: "pstate (lstore ?l) 1 \<noteq> Pending"
    using assms(2,3,4) by (auto simp: load_chain_def)
  have "\<forall>x. pstate (lstore ?l) 1 \<noteq> Settled (Fulfill x)"
    using only_rejections_run [OF assms(1)] by (simp add: only_rejections_def)
  then show ?thesis
    using np d by (cases "pstate (lstore ?l) 1") (auto, metis outcome.exhaust)
qed

text \<open>
  Claim C10.  Take a new wrapper whose loader returns a promise at its first call, and any
  sequence of calls of \<^verbatim>\<open>preload\<close>, render attempts, rejections and jobs in which no
  promise is fulfilled: no content is ever cached, no call \<^verbatim>\<open>update(1)\<close> is made, the
  loader is called at most once, every render attempt raises the cached promise, and no
  promise of the store is fulfilled.  A cached promise stays cached whatever happens
  afterwards, and it is rejected once the loader's promise (promise 0 of the store) has
  been rejected and the job queue has run empty.
\<close>

theorem rejected_load_is_not_retried:
  assumes "\<forall>e\<in>set evs. \<not> is_fulfilment e" and "ld 0 = LoadReturns"
  shows "component (fst (lazy_run ld evs)) = JUndefined \<and>
         updateCalls (fst (lazy_run ld evs)) = [] \<and>
         loadCalls (fst (lazy_run ld evs)) \<le> 1 \<and>
         (\<forall>r. Rendered r \<in> set (snd (snd (lazy_run ld evs))) \<longrightarrow>
            (\<exists>d. r = Thrown d \<and> promise (fst (lazy_run ld evs)) = Some d)) \<and>
         (\<forall>p x. pstate (lstore (fst (lazy_run ld evs))) p \<noteq> Settled (Fulfill x)) \<and>
         (\<forall>d evs'. promise (fst (lazy_run ld evs)) = Some d \<longrightarrow>
            promise (fst (lazy_run ld (evs @ evs'))) = Some d) \<and>
         (\<forall>d. promise (fst (lazy_run ld evs)) = Some d \<and>
              pstate (lstore (fst (lazy_run ld evs))) 0 \<noteq> Pending \<and>
              jobs (lstore (fst (lazy_run ld evs))) = [] \<longrightarrow>
                (\<exists>e. pstate (lstore (fst (lazy_run ld evs))) d = Settled (Reject e)))"
proof -
  have k: "only_rejections (fst (lazy_run ld evs))" using only_rejections_run [OF assms(1)] .
  have lc: "loadCalls (fst (lazy_run ld evs)) \<le> 1"
    using load_once_run [of ld evs] assms(2)
    by (cases "lazy_run ld evs") (auto simp: load_once_def split: if_splits)
  show ?thesis
    using k lc rendered_results_run [where ld = ld and evs = evs, OF assms] promise_kept [of ld evs]
      raised_promise_rejected [OF assms(1), of ld]
    unfolding only_rejections_def by blast
qed

theorem rejected_load_is_not_retried_witness:
  "\<not> is_fulfilment (SettleLoad 0 (Reject (JStr ''offline''))) \<and>
   returning_loader 0 = LoadReturns \<and>
   component (fst (lazy_run returning_loader [Render JNull 0, SettleLoad 0 (Reject (JStr ''offline'')), RunJob, RunJob,
       Render JNull 0, Preload, RunJob])) = JUndefined \<and>
   updateCalls (fst (lazy_run returning_loader [Render JNull 0, SettleLoad 0 (Reject (JStr ''offline'')), RunJob, RunJob,
       Render JNull 0, Preload, RunJob])) = [] \<and>
   loadCalls (fst (lazy_run returning_loader [Render JNull 0, SettleLoad 0 (Reject (JStr ''offline'')), RunJob, RunJob,
       Render JNull 0, Preload, RunJob])) = 1 \<and>
   snd (snd (lazy_run returning_loader [Render JNull 0, SettleLoad 0 (Reject (JStr ''offline'')), RunJob, RunJob,
       Render JNull 0, Preload, RunJob])) =
     [Rendered (Thrown 1), Rendered (Thrown 1), PreloadReturned 1] \<and>
   promise (fst (lazy_run returning_loader [Render JNull 0, SettleLoad 0 (Reject (JStr ''offline'')), RunJob, RunJob,
       Render JNull 0, Preload, RunJob])) = Some 1 \<and>
   pstate (lstore (fst (lazy_run returning_loader [Render JNull 0, SettleLoad 0 (Reject (JStr ''offline'')), RunJob,
       RunJob, Render JNull 0, Preload, RunJob]))) 0 = Settled (Reject (JStr ''offline'')) \<and>
   jobs (lstore (fst (lazy_run returning_loader [Render JNull 0, SettleLoad 0 (Reject (JStr ''offline'')), RunJob,
       RunJob, Render JNull 0, Preload, RunJob]))) = [] \<and>
   pstate (lstore (fst (lazy_run returning_loader [Render JNull 0, SettleLoad 0 (Reject (JStr ''offline'')), RunJob,
       RunJob, Render JNull 0, Preload, RunJob]))) 1 = Settled (Reject (JStr ''offline''))"
proof -
  let ?evs = "[Render JNull 0, SettleLoad 0 (Reject (JStr ''offline'')), RunJob, RunJob,
       Render JNull 0, Preload, RunJob]"
  have h: "\<forall>e\<in>set ?evs. \<not> is_fulfilment e" by simp
  have g: "returning_loader 0 = LoadReturns" by (simp add: returning_loader_def)
  note a = rejected_load_is_not_retried [where ld = returning_loader and evs = ?evs, OF h g]
  have ev: "loadCalls (fst (lazy_run returning_loader ?evs)) = 1"
    "snd (snd (lazy_run returning_loader ?evs)) = [Rendered (Thrown 1), Rendered (Thrown 1), PreloadReturned 1]"
    "promise (fst (lazy_run returning_loader ?evs)) = Some 1"
    "pstate (lstore (fst (lazy_run returning_loader ?evs))) 0 = Settled (Reject (JStr ''offline''))"
    "jobs (lstore (fst (lazy_run returning_loader ?evs))) = []"
    "pstate (lstore (fst (lazy_run returning_loader ?evs))) 1 = Settled (Reject (JStr ''offline''))"
    by code_simp+
  have 1: "component (fst (lazy_run returning_loader ?evs)) = JUndefined" using a by blast
  have 2: "updateCalls (fst (lazy_run returning_loader ?evs)) = []" using a by blast
  have 3: "\<exists>e. pstate (lstore (fst (lazy_run returning_loader ?evs))) 1 = Settled (Reject e)"
    using a ev(3,4,5) by simp
  show ?thesis using 1 2 3 ev g by simp
qed

end
